theory Spec2Isabelle
  imports Complex_Main
begin

section \<open>Parallel non-periodic tridiagonal solver (npts.c)\<close>

text \<open>
  The C source runs the same two functions on every rank of an MPI communicator.
  Each rank owns \<open>local_size = system_size / nprocs\<close> consecutive unknowns.  The
  embedding keeps the per-rank code as it is written (arrays are lists updated by
  index, loops are folds over the index range) and makes the message passing
  explicit: a value received by \<open>MPI_Recv\<close>, \<open>MPI_Allgather\<close> or \<open>MPI_Bcast\<close> is
  an argument of the per-rank function, and a function over all ranks computes what
  each collective delivers.

  A C \<open>double\<close> is modelled by a real number, so every statement below is about the
  algorithm in exact arithmetic; rounding is outside the model.  The \<open>int\<close> and
  \<open>size_t\<close> counters are natural numbers: they only index arrays and count ranks.
  The C code stores the quotient \<open>system_size / nprocs\<close>, computed in \<open>size_t\<close>, in
  the \<open>int\<close> variable \<open>local_size\<close>; the conversion keeps the value as long as
  \<open>system_size div nprocs < 2 ^ 31\<close>, and the theorems that state the full result
  of a run for an arbitrary \<open>system_size\<close> carry that bound as a hypothesis.  The
  divisibility test of the solver is computed in \<open>size_t\<close> and needs no bound.
\<close>

type_synonym arr = "real list"

subsection \<open>Storage\<close>

text \<open>
  \<open>malloc\<close> returns storage whose content is not specified.  The solver assigns
  every cell of its work arrays before it reads it (for \<open>local_size > 0\<close>, see
  \<open>forward_local_initial_content\<close> and \<open>backward_local_initial_content\<close> below), so
  the model starts them with the fill value \<open>0\<close>.

  Modelled from the spec: \<open>initZeros\<close> is declared in \<open>npts.h\<close>, which is not part of
  the sources; by its name and its use it sets the first \<open>n\<close> cells to zero.
\<close>

definition malloc :: "nat \<Rightarrow> arr" where
  "malloc n = replicate n 0"

definition initZeros :: "arr \<Rightarrow> nat \<Rightarrow> arr" where
  "initZeros a n = replicate n 0 @ drop n a"

subsection \<open>Coefficient pipeline: \<open>precompute_beta_gam\<close>\<close>

text \<open>Body of the loop at lines 200--203 for one index \<open>i\<close>.\<close>

definition pipeline_step :: "nat \<Rightarrow> arr \<times> arr \<Rightarrow> arr \<times> arr" where
  "pipeline_step i = (\<lambda>(beta_local, gam_local).
     let beta_local = beta_local[i := 1 / (1 - (1/3) * beta_local ! (i - 1) * (1/3))];
         gam_local = gam_local[i := beta_local ! (i - 1) * (1/3)]
     in (beta_local, gam_local))"

text \<open>
  What one rank does in its turn (lines 190--203).  \<open>last_beta\<close> is the value that
  \<open>MPI_Recv\<close> delivers from rank \<open>rank - 1\<close>; rank 0 does not read it.  With
  \<open>local_size = 0\<close> the assignment to \<open>beta_local[0]\<close> is outside the caller's
  buffer, which C leaves undefined: the model returns \<open>None\<close> there.  \<open>local_size\<close> is
  an \<open>int\<close> in the source (lines 180, 186); the model's quotient is its value for
  \<open>system_size div nprocs < 2 ^ 31\<close>.
\<close>

definition precompute_beta_gam ::
  "nat \<Rightarrow> nat \<Rightarrow> nat \<Rightarrow> real \<Rightarrow> arr \<Rightarrow> arr \<Rightarrow> (arr \<times> arr) option" where
  "precompute_beta_gam rank nprocs system_size last_beta beta_local gam_local =
    (let local_size = system_size div nprocs in
     if local_size = 0 then None
     else Some (fold pipeline_step [1..<local_size]
       (if rank = 0 then (beta_local[0 := 1], gam_local[0 := 0])
        else (beta_local[0 := 1 / (1 - (1/3) * last_beta * (1/3))],
              gam_local[0 := last_beta * (1/3)]))))"

text \<open>
  The outer loop over \<open>r\<close> (line 188) together with the blocking receive makes the
  ranks take their turns in increasing order; rank \<open>r\<close> sends
  \<open>beta_local[local_size-1]\<close> to rank \<open>r+1\<close> (line 206).  \<open>pipeline_turn\<close> is the
  turn of one rank: the state is the list of finished ranks' arrays and the value
  in flight.
\<close>

definition pipeline_turn ::
  "nat \<Rightarrow> nat \<Rightarrow> arr list \<Rightarrow> arr list \<Rightarrow> nat \<Rightarrow>
   ((arr \<times> arr) list \<times> real) option \<Rightarrow> ((arr \<times> arr) list \<times> real) option" where
  "pipeline_turn nprocs system_size beta_bufs gam_bufs rank st =
    (case st of None \<Rightarrow> None
     | Some (finished, last_beta) \<Rightarrow>
        (case precompute_beta_gam rank nprocs system_size last_beta
                (beta_bufs ! rank) (gam_bufs ! rank) of
           None \<Rightarrow> None
         | Some (beta_local, gam_local) \<Rightarrow>
             Some (finished @ [(beta_local, gam_local)],
                   beta_local ! (system_size div nprocs - 1))))"

definition run_pipeline ::
  "nat \<Rightarrow> nat \<Rightarrow> arr list \<Rightarrow> arr list \<Rightarrow> (arr \<times> arr) list option" where
  "run_pipeline nprocs system_size beta_bufs gam_bufs =
     map_option fst
       (fold (pipeline_turn nprocs system_size beta_bufs gam_bufs) [0..<nprocs] (Some ([], 0)))"

subsection \<open>Solver: the local sweeps\<close>

text \<open>Body of the loop at lines 57--60.\<close>

definition forward_step :: "arr \<Rightarrow> arr \<Rightarrow> nat \<Rightarrow> arr \<times> arr \<Rightarrow> arr \<times> arr" where
  "forward_step beta_local r_local i = (\<lambda>(phi_local, psi_local).
     (phi_local[i := beta_local ! i * (r_local ! i - (1/3) * phi_local ! (i - 1))],
      psi_local[i := - (1/3) * beta_local ! i * psi_local ! (i - 1)]))"

text \<open>Lines 47--60: the seeds and the left-to-right sweep.\<close>

definition forward_local ::
  "nat \<Rightarrow> nat \<Rightarrow> arr \<Rightarrow> arr \<Rightarrow> arr \<times> arr \<Rightarrow> arr \<times> arr" where
  "forward_local rank local_size beta_local r_local = (\<lambda>(phi_local, psi_local).
     fold (forward_step beta_local r_local) [1..<local_size]
       (if rank = 0 then (phi_local[0 := 0], psi_local[0 := 1])
        else (phi_local[0 := beta_local ! 0 * r_local ! 0],
              psi_local[0 := - (1/3) * beta_local ! 0])))"

text \<open>Lines 80--90: the body of \<open>if (rank != 0)\<close>, two nested loops.\<close>

definition forward_resolve :: "nat \<Rightarrow> arr \<Rightarrow> arr \<Rightarrow> real \<Rightarrow> real" where
  "forward_resolve rank phi_lasts psi_lasts u_first =
    (let (u_tilda, product_2) =
       fold (\<lambda>i (u_tilda, product_2).
               let product_1 = fold (\<lambda>j product_1. product_1 * psi_lasts ! j) [i+1..<rank] 1
               in (u_tilda + phi_lasts ! i * product_1, product_2 * psi_lasts ! i))
            [0..<rank] (0, 1)
     in u_tilda + u_first * product_2)"

text \<open>Lines 95--97.\<close>

definition forward_combine :: "nat \<Rightarrow> arr \<Rightarrow> arr \<Rightarrow> real \<Rightarrow> arr \<Rightarrow> arr" where
  "forward_combine local_size phi_local psi_local u_tilda u_local =
     fold (\<lambda>i u_local. u_local[i := phi_local ! i + u_tilda * psi_local ! i])
          [0..<local_size] u_local"

text \<open>Body of the loop at lines 118--122.\<close>

definition backward_step :: "nat \<Rightarrow> arr \<Rightarrow> arr \<Rightarrow> nat \<Rightarrow> arr \<times> arr \<Rightarrow> arr \<times> arr" where
  "backward_step local_size u_local gam_local i = (\<lambda>(phi_local, psi_local).
     (phi_local[local_size-1-i := u_local ! (local_size-1-i) -
          gam_local ! (local_size-1-i+1) * phi_local ! (local_size-1-i+1)],
      psi_local[local_size-1-i :=
          - gam_local ! (local_size-1-i+1) * psi_local ! (local_size-1-i+1)]))"

text \<open>Lines 108--122: the seeds and the right-to-left sweep.\<close>

definition backward_local ::
  "nat \<Rightarrow> nat \<Rightarrow> nat \<Rightarrow> arr \<Rightarrow> arr \<Rightarrow> arr \<Rightarrow> arr \<times> arr \<Rightarrow> arr \<times> arr" where
  "backward_local rank nprocs local_size u_local gam_local gam_firsts =
    (\<lambda>(phi_local, psi_local).
     fold (backward_step local_size u_local gam_local) [1..<local_size]
       (if rank = nprocs - 1
        then (phi_local[local_size-1 := 0], psi_local[local_size-1 := 1])
        else (phi_local[local_size-1 := u_local ! (local_size-1)],
              psi_local[local_size-1 := - gam_firsts ! (rank+1)])))"

text \<open>Lines 139--153: the body of \<open>if (rank != nprocs-1)\<close>.\<close>

definition backward_resolve :: "nat \<Rightarrow> nat \<Rightarrow> arr \<Rightarrow> arr \<Rightarrow> real \<Rightarrow> real" where
  "backward_resolve rank nprocs phi_firsts psi_firsts x_last =
    (let x_tilda =
       fold (\<lambda>i x_tilda.
               let product_1 = fold (\<lambda>j product_1. product_1 * psi_firsts ! j) [rank+1..<i] 1
               in x_tilda + phi_firsts ! i * product_1)
            [rank+2..<nprocs] 0;
         product_2 = fold (\<lambda>i product_2. product_2 * psi_firsts ! i) [rank+1..<nprocs] 1
     in x_tilda + (phi_firsts ! (rank+1) + x_last * product_2))"

text \<open>Lines 158--161.\<close>

definition backward_combine :: "nat \<Rightarrow> arr \<Rightarrow> arr \<Rightarrow> real \<Rightarrow> arr \<Rightarrow> arr" where
  "backward_combine local_size phi_local psi_local x_tilda x_local =
     fold (\<lambda>i x_local. x_local[local_size-1-i :=
              phi_local ! (local_size-1-i) + x_tilda * psi_local ! (local_size-1-i)])
          [0..<local_size] x_local"

subsection \<open>Solver: one rank\<close>

text \<open>What the collectives deliver to a rank during one call.\<close>

record net =
  phi_lasts :: arr
  psi_lasts :: arr
  u_first :: real
  gam_firsts :: arr
  phi_firsts :: arr
  psi_firsts :: arr
  x_last :: real

text \<open>
  Lines 41--97: the forward half of the call.  It returns the local arrays and the
  coupling scalar as they stand at the barrier of line 99.
\<close>

definition forward_u_tilda :: "nat \<Rightarrow> arr \<Rightarrow> arr \<Rightarrow> arr \<Rightarrow> arr \<Rightarrow> real \<Rightarrow> real" where
  "forward_u_tilda rank beta_local r_local phi_lasts' psi_lasts' u_first' =
    (let u_local0 = beta_local ! 0 * r_local ! 0 in
     if rank = 0 then u_local0 else forward_resolve rank phi_lasts' psi_lasts' u_first')"

definition forward_phase ::
  "nat \<Rightarrow> nat \<Rightarrow> arr \<Rightarrow> arr \<Rightarrow> arr \<Rightarrow> arr \<Rightarrow> real \<Rightarrow> arr \<times> arr \<times> arr" where
  "forward_phase rank local_size beta_local r_local phi_lasts' psi_lasts' u_first' =
    (let u_local = initZeros (malloc local_size) local_size;
         (phi_local, psi_local) =
            forward_local rank local_size beta_local r_local
              (malloc local_size, malloc local_size);
         u_local = (if rank = 0 then u_local[0 := beta_local ! 0 * r_local ! 0] else u_local);
         u_tilda = forward_u_tilda rank beta_local r_local phi_lasts' psi_lasts' u_first';
         u_local = forward_combine local_size phi_local psi_local u_tilda u_local
     in (phi_local, psi_local, u_local))"

text \<open>
  Lines 129--154: the coupling scalar of the backward sweep.  The last rank
  writes \<open>x_local[local_size-1]\<close> and reads it back.
\<close>

definition backward_anchor :: "nat \<Rightarrow> nat \<Rightarrow> nat \<Rightarrow> arr \<Rightarrow> arr \<Rightarrow> arr" where
  "backward_anchor rank nprocs local_size u_local x_local =
    (if rank = nprocs - 1 then x_local[local_size-1 := u_local ! (local_size-1)] else x_local)"

definition backward_x_tilda ::
  "nat \<Rightarrow> nat \<Rightarrow> nat \<Rightarrow> arr \<Rightarrow> arr \<Rightarrow> arr \<Rightarrow> real \<Rightarrow> real" where
  "backward_x_tilda rank nprocs local_size x_local phi_firsts' psi_firsts' x_last' =
    (if rank = nprocs - 1 then x_local ! (local_size-1)
     else backward_resolve rank nprocs phi_firsts' psi_firsts' x_last')"

text \<open>
  The result of a call: \<open>Not_multiple\<close> stands for the diagnostic printed at line 28
  (with its two arguments) followed by the early return.  \<open>Out_of_bounds\<close> marks
  \<open>local_size = 0\<close>, where line 48 or 53 indexes an allocation of zero bytes; C gives
  that no meaning and the model stops there.  \<open>local_size\<close> is an \<open>int\<close> in the source
  (lines 16, 25); the model's quotient is its value for
  \<open>system_size div nprocs < 2 ^ 31\<close>.
\<close>

datatype status = Done | Not_multiple nat nat | Out_of_bounds

definition nonperiodic_tridiagonal_solver ::
  "nat \<Rightarrow> nat \<Rightarrow> net \<Rightarrow> arr \<Rightarrow> arr \<Rightarrow> arr \<Rightarrow> nat \<Rightarrow> arr \<Rightarrow> status \<times> arr" where
  "nonperiodic_tridiagonal_solver rank nprocs nt beta_local gam_local r_local system_size x_local =
    (let local_size = system_size div nprocs in
     if system_size mod nprocs \<noteq> 0 then (Not_multiple system_size nprocs, x_local)
     else if local_size = 0 then (Out_of_bounds, x_local)
     else
       let (phi_local, psi_local, u_local) =
              forward_phase rank local_size beta_local r_local
                (phi_lasts nt) (psi_lasts nt) (u_first nt);
           (phi_local, psi_local) =
              backward_local rank nprocs local_size u_local gam_local (gam_firsts nt)
                (phi_local, psi_local);
           x_local = backward_anchor rank nprocs local_size u_local x_local;
           x_tilda = backward_x_tilda rank nprocs local_size x_local
                       (phi_firsts nt) (psi_firsts nt) (x_last nt);
           x_local = backward_combine local_size phi_local psi_local x_tilda x_local
       in (Done, x_local))"

subsection \<open>Solver: all ranks\<close>

text \<open>
  The collectives of one call, computed from every rank's arrays.  An all-gather
  delivers the contributions in rank order; a broadcast delivers the root's value.
  Rank \<open>k\<close> contributes \<open>phi_local[local_size-1]\<close> and \<open>psi_local[local_size-1]\<close>
  (lines 64--68), \<open>gam_local[0]\<close> (line 106), \<open>phi_local[0]\<close> and \<open>psi_local[0]\<close>
  (lines 126--127); rank 0 is the root of \<open>u_first\<close> (line 77) and rank
  \<open>nprocs-1\<close> the root of \<open>x_last\<close> (line 136).
\<close>

definition exchange :: "nat \<Rightarrow> nat \<Rightarrow> arr list \<Rightarrow> arr list \<Rightarrow> arr list \<Rightarrow> net" where
  "exchange nprocs local_size betas gams rs =
    (let fwd = (\<lambda>k. forward_local k local_size (betas ! k) (rs ! k)
                      (malloc local_size, malloc local_size));
         phi_lasts' = map (\<lambda>k. fst (fwd k) ! (local_size-1)) [0..<nprocs];
         psi_lasts' = map (\<lambda>k. snd (fwd k) ! (local_size-1)) [0..<nprocs];
         u_first' = (betas ! 0) ! 0 * (rs ! 0) ! 0;
         gam_firsts' = map (\<lambda>k. (gams ! k) ! 0) [0..<nprocs];
         bwd = (\<lambda>k. case forward_phase k local_size (betas ! k) (rs ! k)
                            phi_lasts' psi_lasts' u_first' of
                      (phi_local, psi_local, u_local) \<Rightarrow>
                        (backward_local k nprocs local_size u_local (gams ! k) gam_firsts'
                           (phi_local, psi_local), u_local));
         phi_firsts' = map (\<lambda>k. fst (fst (bwd k)) ! 0) [0..<nprocs];
         psi_firsts' = map (\<lambda>k. snd (fst (bwd k)) ! 0) [0..<nprocs];
         x_last' = snd (bwd (nprocs-1)) ! (local_size-1)
     in \<lparr>phi_lasts = phi_lasts', psi_lasts = psi_lasts', u_first = u_first',
         gam_firsts = gam_firsts', phi_firsts = phi_firsts', psi_firsts = psi_firsts',
         x_last = x_last'\<rparr>)"

definition run_solver ::
  "nat \<Rightarrow> nat \<Rightarrow> arr list \<Rightarrow> arr list \<Rightarrow> arr list \<Rightarrow> arr list \<Rightarrow> (status \<times> arr) list" where
  "run_solver nprocs system_size betas gams rs xs =
     map (\<lambda>rank. nonperiodic_tridiagonal_solver rank nprocs
                   (exchange nprocs (system_size div nprocs) betas gams rs)
                   (betas ! rank) (gams ! rank) (rs ! rank) system_size (xs ! rank))
         [0..<nprocs]"

subsection \<open>Pipeline followed by solver\<close>

text \<open>
  A vector of the whole system is cut into the ranks' blocks: rank \<open>k\<close> owns the
  indices from \<open>k * local_size\<close>.
\<close>

definition blocks :: "nat \<Rightarrow> nat \<Rightarrow> arr \<Rightarrow> arr list" where
  "blocks nprocs local_size v =
     map (\<lambda>k. take local_size (drop (k * local_size) v)) [0..<nprocs]"

text \<open>
  The caller of the two entry points: \<open>b0\<close>, \<open>g0\<close> and \<open>x0\<close> are the contents of the
  caller's buffers before the calls, \<open>r\<close> is the right-hand side.
\<close>

definition solve_system ::
  "nat \<Rightarrow> nat \<Rightarrow> arr \<Rightarrow> arr \<Rightarrow> arr \<Rightarrow> arr \<Rightarrow> (status \<times> arr) list option" where
  "solve_system nprocs system_size b0 g0 r x0 =
    (let local_size = system_size div nprocs in
     case run_pipeline nprocs system_size (blocks nprocs local_size b0) (blocks nprocs local_size g0) of
       None \<Rightarrow> None
     | Some bg \<Rightarrow>
         Some (run_solver nprocs system_size (map fst bg) (map snd bg)
                 (blocks nprocs local_size r) (blocks nprocs local_size x0)))"

section \<open>Reference definitions\<close>

text \<open>
  The sequences and the sequential algorithm that the specification compares the
  program with.  They follow the wording of the specification, not the code.
\<close>

subsection \<open>The global coefficient recurrence\<close>

fun beta_seq :: "nat \<Rightarrow> real" where
  "beta_seq 0 = 1"
| "beta_seq (Suc i) = 1 / (1 - (1/3) * beta_seq i * (1/3))"

fun gam_seq :: "nat \<Rightarrow> real" where
  "gam_seq 0 = 0"
| "gam_seq (Suc i) = beta_seq i * (1/3)"

text \<open>The smaller fixed point of \<open>b \<mapsto> 1 / (1 - b / 9)\<close>, a root of \<open>b\<^sup>2 - 9 b + 9\<close>.\<close>

definition beta_limit :: real where
  "beta_limit = (9 - 3 * sqrt 5) / 2"

subsection \<open>The reduced recurrence of the forward sweep\<close>

text \<open>\<open>u_0 = u_first\<close> and \<open>u_j = phi_lasts[j-1] + psi_lasts[j-1] * u_{j-1}\<close>.\<close>

fun reduced_forward :: "arr \<Rightarrow> arr \<Rightarrow> real \<Rightarrow> nat \<Rightarrow> real" where
  "reduced_forward phi_lasts' psi_lasts' u_first' 0 = u_first'"
| "reduced_forward phi_lasts' psi_lasts' u_first' (Suc j) =
     phi_lasts' ! j + psi_lasts' ! j * reduced_forward phi_lasts' psi_lasts' u_first' j"

subsection \<open>Sequential substitution with given coefficients\<close>

text \<open>
  The two sweeps of the solver as one rank would run them over the whole system,
  with coefficient sequences \<open>B\<close> (\<open>beta\<close>) and \<open>G\<close> (\<open>gam\<close>) and right-hand side
  \<open>R\<close>: the forward sweep \<open>u\<^sub>0 = B\<^sub>0 R\<^sub>0\<close>, \<open>u\<^sub>i = B\<^sub>i (R\<^sub>i - u\<^sub>i\<^sub>-\<^sub>1 / 3)\<close>, and the
  backward sweep \<open>x\<^sub>n\<^sub>-\<^sub>1 = u\<^sub>n\<^sub>-\<^sub>1\<close>, \<open>x\<^sub>i = u\<^sub>i - G\<^sub>i\<^sub>+\<^sub>1 x\<^sub>i\<^sub>+\<^sub>1\<close>.
  \<open>backward_subst G U n k\<close> is the unknown of index \<open>n - 1 - k\<close>.
\<close>

fun forward_subst :: "(nat \<Rightarrow> real) \<Rightarrow> (nat \<Rightarrow> real) \<Rightarrow> nat \<Rightarrow> real" where
  "forward_subst B R 0 = B 0 * R 0"
| "forward_subst B R (Suc i) = B (Suc i) * (R (Suc i) - (1/3) * forward_subst B R i)"

fun backward_subst :: "(nat \<Rightarrow> real) \<Rightarrow> (nat \<Rightarrow> real) \<Rightarrow> nat \<Rightarrow> nat \<Rightarrow> real" where
  "backward_subst G U n 0 = U (n - 1)"
| "backward_subst G U n (Suc k) =
     U (n - 1 - Suc k) - G (n - 1 - Suc k + 1) * backward_subst G U n k"

definition sequential_solution ::
  "(nat \<Rightarrow> real) \<Rightarrow> (nat \<Rightarrow> real) \<Rightarrow> (nat \<Rightarrow> real) \<Rightarrow> nat \<Rightarrow> nat \<Rightarrow> real" where
  "sequential_solution B G R n i = backward_subst G (forward_subst B R) n (n - 1 - i)"

subsection \<open>Sequential Thomas algorithm\<close>

text \<open>
  Elimination for a tridiagonal system with sub-diagonal \<open>a\<close>, diagonal \<open>b\<close>,
  super-diagonal \<open>c\<close> and right-hand side \<open>d\<close>: the forward pass computes the
  modified coefficients \<open>c'\<close> and \<open>d'\<close>, the backward pass substitutes from the last
  unknown.  \<open>thomas_x a b c d n k\<close> is the unknown of index \<open>n - 1 - k\<close>.
\<close>

fun thomas_c :: "arr \<Rightarrow> arr \<Rightarrow> arr \<Rightarrow> nat \<Rightarrow> real" where
  "thomas_c a b c 0 = c ! 0 / b ! 0"
| "thomas_c a b c (Suc i) = c ! Suc i / (b ! Suc i - a ! Suc i * thomas_c a b c i)"

fun thomas_d :: "arr \<Rightarrow> arr \<Rightarrow> arr \<Rightarrow> arr \<Rightarrow> nat \<Rightarrow> real" where
  "thomas_d a b c d 0 = d ! 0 / b ! 0"
| "thomas_d a b c d (Suc i) =
     (d ! Suc i - a ! Suc i * thomas_d a b c d i) / (b ! Suc i - a ! Suc i * thomas_c a b c i)"

fun thomas_x :: "arr \<Rightarrow> arr \<Rightarrow> arr \<Rightarrow> arr \<Rightarrow> nat \<Rightarrow> nat \<Rightarrow> real" where
  "thomas_x a b c d n 0 = thomas_d a b c d (n - 1)"
| "thomas_x a b c d n (Suc k) =
     thomas_d a b c d (n - 1 - Suc k) - thomas_c a b c (n - 1 - Suc k) * thomas_x a b c d n k"

definition thomas :: "arr \<Rightarrow> arr \<Rightarrow> arr \<Rightarrow> arr \<Rightarrow> arr" where
  "thomas a b c d = map (\<lambda>i. thomas_x a b c d (length d) (length d - 1 - i)) [0..<length d]"

text \<open>The system of the solver: unit diagonal, constant off-diagonal weight \<open>w\<close>.\<close>

definition thomas_const :: "real \<Rightarrow> arr \<Rightarrow> arr" where
  "thomas_const w r =
     thomas (replicate (length r) w) (replicate (length r) 1) (replicate (length r) w) r"

text \<open>
  Row \<open>i\<close> of the product of that matrix with a vector \<open>x\<close> of \<open>n\<close> entries.
\<close>

definition tridiag_row :: "real \<Rightarrow> nat \<Rightarrow> arr \<Rightarrow> nat \<Rightarrow> real" where
  "tridiag_row w n x i =
     (if i = 0 then 0 else w * x ! (i - 1)) + x ! i + (if i + 1 < n then w * x ! (i + 1) else 0)"

subsection \<open>The example system\<close>

text \<open>
  The system of size 4 of the specification, with its rows written out, and the
  product of a matrix given by its rows with a vector.
\<close>

definition example_matrix :: "real list list" where
  "example_matrix =
     [[1, 1/3, 0, 0],
      [1/3, 1, 1/3, 0],
      [0, 1/3, 1, 1/3],
      [0, 0, 1/3, 1]]"

definition mat_vec :: "real list list \<Rightarrow> arr \<Rightarrow> arr" where
  "mat_vec A x = map (\<lambda>row. sum_list (map2 (*) row x)) A"

section \<open>Properties\<close>

subsection \<open>Loop invariants of the local sweeps\<close>

lemma forward_loop_inv:
  assumes "length phi0 = L" "length psi0 = L"
  shows "n \<le> L \<Longrightarrow> fold (forward_step beta r) [1..<n] (phi0, psi0) = (phi, psi) \<Longrightarrow>
     length phi = L \<and> length psi = L \<and> phi ! 0 = phi0 ! 0 \<and> psi ! 0 = psi0 ! 0 \<and>
     (\<forall>i. 1 \<le> i \<and> i < n \<longrightarrow>
        phi ! i = beta ! i * (r ! i - (1/3) * phi ! (i - 1)) \<and>
        psi ! i = - (1/3) * beta ! i * psi ! (i - 1))"
proof (induction n arbitrary: phi psi)
  case 0
  then show ?case using assms by simp
next
  case (Suc n)
  show ?case
  proof (cases "n = 0")
    case True
    with Suc.prems assms show ?thesis by simp
  next
    case False
    obtain p q where pq: "fold (forward_step beta r) [1..<n] (phi0, psi0) = (p, q)"
      by fastforce
    from Suc.prems have nL: "n < L" by simp
    have IH: "length p = L \<and> length q = L \<and> p ! 0 = phi0 ! 0 \<and> q ! 0 = psi0 ! 0 \<and>
     (\<forall>i. 1 \<le> i \<and> i < n \<longrightarrow>
        p ! i = beta ! i * (r ! i - (1/3) * p ! (i - 1)) \<and>
        q ! i = - (1/3) * beta ! i * q ! (i - 1))"
      using Suc.IH [OF _ pq] nL by simp
    from False have "fold (forward_step beta r) [1..<Suc n] (phi0, psi0) = forward_step beta r n (p, q)"
      using pq by simp
    with Suc.prems(2) have "forward_step beta r n (p, q) = (phi, psi)"
      by simp
    then have phi: "phi = p[n := beta ! n * (r ! n - (1/3) * p ! (n - 1))]"
      and psi: "psi = q[n := - (1/3) * beta ! n * q ! (n - 1)]"
      by (simp_all add: forward_step_def)
    have rec: "phi ! i = beta ! i * (r ! i - (1/3) * phi ! (i - 1)) \<and>
        psi ! i = - (1/3) * beta ! i * psi ! (i - 1)" if "1 \<le> i" "i < Suc n" for i
    proof (cases "i = n")
      case True
      then show ?thesis using phi psi IH nL False by simp
    next
      case False
      with that have "i < n" by simp
      then show ?thesis using phi psi IH that by simp
    qed
    have "length phi = L \<and> length psi = L \<and> phi ! 0 = phi0 ! 0 \<and> psi ! 0 = psi0 ! 0"
      using phi psi IH False by simp
    with rec show ?thesis by blast
  qed
qed


subsection \<open>A system size that is not a multiple of the number of ranks\<close>

text \<open>
  C3.  When \<open>system_size\<close> is not a multiple of the number of ranks, a call prints
  the diagnostic and returns; the output buffer \<open>x_local\<close> is the one the caller
  passed in, cell by cell.  This holds on every rank of the group.
\<close>

theorem divisibility_rejection:
  assumes "0 < nprocs" "system_size mod nprocs \<noteq> 0"
  shows "nonperiodic_tridiagonal_solver rank nprocs nt beta_local gam_local r_local
           system_size x_local = (Not_multiple system_size nprocs, x_local) \<and>
     run_solver nprocs system_size betas gams rs xs =
       map (\<lambda>k. (Not_multiple system_size nprocs, xs ! k)) [0..<nprocs]"
  using assms by (simp add: nonperiodic_tridiagonal_solver_def run_solver_def)

theorem divisibility_rejection_witness:
  "(0::nat) < 2 \<and> (5::nat) mod 2 \<noteq> 0 \<and>
   nonperiodic_tridiagonal_solver 1 2
       \<lparr>phi_lasts = [1, 1], psi_lasts = [1, 1], u_first = 1, gam_firsts = [1, 1],
        phi_firsts = [1, 1], psi_firsts = [1, 1], x_last = 1\<rparr>
       [1, 2] [3, 4] [5, 6] 5 [-7, -7] =
     (Not_multiple 5 2, [-7, -7]) \<and>
   run_solver 2 5 [[1, 2], [1, 2]] [[3, 4], [3, 4]] [[5, 6], [5, 6]] [[-7, -7], [-8, -8]] =
     [(Not_multiple 5 2, [-7, -7]), (Not_multiple 5 2, [-8, -8])]"
  using divisibility_rejection [of 2 5 1
       "\<lparr>phi_lasts = [1, 1], psi_lasts = [1, 1], u_first = 1, gam_firsts = [1, 1],
        phi_firsts = [1, 1], psi_firsts = [1, 1], x_last = 1\<rparr>"
       "[1, 2]" "[3, 4]" "[5, 6]" "[-7, -7]"
       "[[1, 2], [1, 2]]" "[[3, 4], [3, 4]]" "[[5, 6], [5, 6]]" "[[-7, -7], [-8, -8]]"]
  by (simp add: upt_conv_Cons)

subsection \<open>The forward sweep\<close>

text \<open>
  C5.  The forward local sweep: rank 0 seeds \<open>phi_local[0] = 0\<close> and
  \<open>psi_local[0] = 1\<close>, every other rank seeds \<open>beta_local[0] * r_local[0]\<close> and
  \<open>-(1/3) * beta_local[0]\<close>, and every later index follows the elimination
  recurrence.
\<close>

theorem forward_local_sweep:
  assumes "0 < local_size" "length phi0 = local_size" "length psi0 = local_size"
    and "forward_local rank local_size beta_local r_local (phi0, psi0) = (phi_local, psi_local)"
  shows "(rank = 0 \<longrightarrow> phi_local ! 0 = 0 \<and> psi_local ! 0 = 1) \<and>
     (0 < rank \<longrightarrow> phi_local ! 0 = beta_local ! 0 * r_local ! 0 \<and>
                    psi_local ! 0 = - (1/3) * beta_local ! 0) \<and>
     (\<forall>i. 1 \<le> i \<and> i < local_size \<longrightarrow>
        phi_local ! i = beta_local ! i * (r_local ! i - (1/3) * phi_local ! (i - 1)) \<and>
        psi_local ! i = - (1/3) * beta_local ! i * psi_local ! (i - 1))"
proof -
  define s where "s = (if rank = 0 then (phi0[0 := 0], psi0[0 := 1])
        else (phi0[0 := beta_local ! 0 * r_local ! 0], psi0[0 := - (1/3) * beta_local ! 0]))"
  have run: "fold (forward_step beta_local r_local) [1..<local_size] (fst s, snd s) =
      (phi_local, psi_local)"
    using assms(4) by (simp add: forward_local_def s_def)
  have len: "length (fst s) = local_size" "length (snd s) = local_size"
    using assms(2,3) by (simp_all add: s_def)
  have seed0: "fst s ! 0 = (if rank = 0 then 0 else beta_local ! 0 * r_local ! 0)"
    "snd s ! 0 = (if rank = 0 then 1 else - (1/3) * beta_local ! 0)"
    using assms(1,2,3) by (simp_all add: s_def)
  from forward_loop_inv [OF len le_refl run] seed0 show ?thesis
    by simp
qed

theorem forward_local_sweep_witness:
  "forward_local 1 2 [2, 3] [5, 7] (malloc 2, malloc 2) = ([10, 11], [- 2/3, 2/3]) \<and>
   [10, 11 :: real] ! 0 = [2, 3] ! 0 * [5, 7] ! 0 \<and>
   [- 2/3, 2/3 :: real] ! 0 = - (1/3) * [2, 3] ! 0 \<and>
   [10, 11 :: real] ! 1 = [2, 3] ! 1 * ([5, 7] ! 1 - (1/3) * [10, 11] ! (1 - 1)) \<and>
   [- 2/3, 2/3 :: real] ! 1 = - (1/3) * [2, 3] ! 1 * [- 2/3, 2/3] ! (1 - 1)"
proof -
  have len: "length (malloc 2) = 2"
    by (simp add: malloc_def)
  have run: "forward_local 1 2 [2, 3] [5, 7] (malloc 2, malloc 2) = ([10, 11], [- 2/3, 2/3])"
    by code_simp
  from forward_local_sweep [OF _ len len run] run show ?thesis
    by simp
qed

lemma backward_loop_inv:
  assumes "length phi0 = L" "length psi0 = L"
  shows "n \<le> L \<Longrightarrow> fold (backward_step L u gam) [1..<n] (phi0, psi0) = (phi, psi) \<Longrightarrow>
     length phi = L \<and> length psi = L \<and>
     phi ! (L - 1) = phi0 ! (L - 1) \<and> psi ! (L - 1) = psi0 ! (L - 1) \<and>
     (\<forall>m. L - n \<le> m \<and> m + 1 < L \<longrightarrow>
        phi ! m = u ! m - gam ! (m + 1) * phi ! (m + 1) \<and>
        psi ! m = - gam ! (m + 1) * psi ! (m + 1))"
proof (induction n arbitrary: phi psi)
  case 0
  then show ?case using assms by simp
next
  case (Suc n)
  show ?case
  proof (cases "n = 0")
    case True
    have "\<not> (L - Suc 0 \<le> m \<and> m + 1 < L)" for m
      by arith
    with True Suc.prems assms show ?thesis by auto
  next
    case False
    obtain p q where pq: "fold (backward_step L u gam) [1..<n] (phi0, psi0) = (p, q)"
      by fastforce
    from Suc.prems have nL: "n < L" by simp
    have IH: "length p = L \<and> length q = L \<and>
     p ! (L - 1) = phi0 ! (L - 1) \<and> q ! (L - 1) = psi0 ! (L - 1) \<and>
     (\<forall>m. L - n \<le> m \<and> m + 1 < L \<longrightarrow>
        p ! m = u ! m - gam ! (m + 1) * p ! (m + 1) \<and>
        q ! m = - gam ! (m + 1) * q ! (m + 1))"
      using Suc.IH [OF _ pq] nL by simp
    from False have "fold (backward_step L u gam) [1..<Suc n] (phi0, psi0) =
        backward_step L u gam n (p, q)"
      using pq by simp
    with Suc.prems(2) have "backward_step L u gam n (p, q) = (phi, psi)"
      by simp
    moreover have "L - 1 - n + 1 = L - n"
      using nL by simp
    ultimately have phi: "phi = p[L - 1 - n := u ! (L - 1 - n) - gam ! (L - n) * p ! (L - n)]"
      and psi: "psi = q[L - 1 - n := - gam ! (L - n) * q ! (L - n)]"
      by (simp_all add: backward_step_def)
    have rec: "phi ! m = u ! m - gam ! (m + 1) * phi ! (m + 1) \<and>
        psi ! m = - gam ! (m + 1) * psi ! (m + 1)" if "L - Suc n \<le> m" "m + 1 < L" for m
    proof (cases "m = L - 1 - n")
      case True
      then have "m + 1 = L - n" using nL by simp
      then show ?thesis using phi psi IH nL True by simp
    next
      case False
      with that have "L - n \<le> m" by simp
      then show ?thesis using phi psi IH that False by simp
    qed
    have "length phi = L \<and> length psi = L \<and>
        phi ! (L - 1) = phi0 ! (L - 1) \<and> psi ! (L - 1) = psi0 ! (L - 1)"
      using phi psi IH False nL by simp
    with rec show ?thesis by blast
  qed
qed

lemma fold_fill_up:
  "n \<le> length a \<Longrightarrow>
   length (fold (\<lambda>i a. a[i := f i]) [0..<n] a) = length a \<and>
   (\<forall>i < length a. fold (\<lambda>i a. a[i := f i]) [0..<n] a ! i = (if i < n then f i else a ! i))"
  by (induction n) (auto simp: nth_list_update)

lemma fold_fill_down:
  "n \<le> L \<Longrightarrow> length a = L \<Longrightarrow>
   length (fold (\<lambda>i b. b[L - 1 - i := f (L - 1 - i)]) [0..<n] a) = L \<and>
   (\<forall>m < L. fold (\<lambda>i b. b[L - 1 - i := f (L - 1 - i)]) [0..<n] a ! m =
       (if L - n \<le> m then f m else a ! m))"
  by (induction n) (auto simp: nth_list_update)

lemma fold_times: "fold (\<lambda>j p. p * f j) [a..<b] (c::real) = c * (\<Prod>j\<in>{a..<b}. f j)"
  by (induction b) (auto simp: prod.atLeastLessThan_Suc)

lemma fold_plus: "fold (\<lambda>i s. s + g i) [a..<b] (c::real) = c + (\<Sum>i\<in>{a..<b}. g i)"
  by (induction b) (auto simp: sum.atLeastLessThan_Suc)

lemma fold_plus_times:
  "fold (\<lambda>i (s, p). (s + g i, p * f i)) [0..<n] (s0 :: real, p0 :: real) =
     (s0 + (\<Sum>i<n. g i), p0 * (\<Prod>i<n. f i))"
  by (induction n) (auto simp: lessThan_Suc)

subsection \<open>The replicated reduced systems\<close>

lemma forward_resolve_closed:
  "forward_resolve k phi psi uf =
     (\<Sum>i<k. phi ! i * (\<Prod>j\<in>{Suc i..<k}. psi ! j)) + uf * (\<Prod>i<k. psi ! i)"
  by (simp add: forward_resolve_def fold_times fold_plus_times)

lemma forward_closed_step:
  fixes phi psi :: arr
  shows "(\<Sum>i<Suc k. phi ! i * (\<Prod>j\<in>{Suc i..<Suc k}. psi ! j)) + uf * (\<Prod>i<Suc k. psi ! i) =
   phi ! k + psi ! k * ((\<Sum>i<k. phi ! i * (\<Prod>j\<in>{Suc i..<k}. psi ! j)) + uf * (\<Prod>i<k. psi ! i))"
proof -
  have "(\<Sum>i<k. phi ! i * (\<Prod>j\<in>{Suc i..<Suc k}. psi ! j)) =
        (\<Sum>i<k. psi ! k * (phi ! i * (\<Prod>j\<in>{Suc i..<k}. psi ! j)))"
    by (rule sum.cong) (simp_all add: prod.atLeastLessThan_Suc mult_ac)
  also have "\<dots> = psi ! k * (\<Sum>i<k. phi ! i * (\<Prod>j\<in>{Suc i..<k}. psi ! j))"
    by (rule sum_distrib_left [symmetric])
  finally show ?thesis
    by (simp add: lessThan_Suc algebra_simps)
qed

lemma forward_resolve_reduced:
  "forward_resolve k phi psi uf = reduced_forward phi psi uf k"
proof (induction k)
  case 0
  show ?case by (simp add: forward_resolve_closed)
next
  case (Suc k)
  then show ?case
    using forward_closed_step [where phi = phi and k = k and psi = psi and uf = uf]
    by (simp only: forward_resolve_closed reduced_forward.simps)
qed

lemma backward_resolve_closed:
  "backward_resolve k P phi psi xl =
     (\<Sum>i\<in>{Suc (Suc k)..<P}. phi ! i * (\<Prod>j\<in>{Suc k..<i}. psi ! j)) + phi ! Suc k +
     xl * (\<Prod>i\<in>{Suc k..<P}. psi ! i)"
  by (simp add: backward_resolve_def fold_times fold_plus)

lemma backward_resolve_last:
  "backward_resolve k (Suc (Suc k)) phi psi xl = phi ! Suc k + psi ! Suc k * xl"
  by (simp add: backward_resolve_closed)

lemma backward_resolve_step:
  assumes "Suc (Suc k) < P"
  shows "backward_resolve k P phi psi xl =
           phi ! Suc k + psi ! Suc k * backward_resolve (Suc k) P phi psi xl"
proof -
  have split: "(\<Sum>i\<in>{Suc (Suc k)..<P}. phi ! i * (\<Prod>j\<in>{Suc k..<i}. psi ! j)) =
      phi ! Suc (Suc k) * psi ! Suc k +
      (\<Sum>i\<in>{Suc (Suc (Suc k))..<P}. phi ! i * (\<Prod>j\<in>{Suc k..<i}. psi ! j))"
    using assms by (simp add: sum.atLeast_Suc_lessThan)
  have "(\<Sum>i\<in>{Suc (Suc (Suc k))..<P}. phi ! i * (\<Prod>j\<in>{Suc k..<i}. psi ! j)) =
      (\<Sum>i\<in>{Suc (Suc (Suc k))..<P}. psi ! Suc k * (phi ! i * (\<Prod>j\<in>{Suc (Suc k)..<i}. psi ! j)))"
    by (rule sum.cong) (simp_all add: prod.atLeast_Suc_lessThan mult_ac)
  also have "\<dots> =
      psi ! Suc k * (\<Sum>i\<in>{Suc (Suc (Suc k))..<P}. phi ! i * (\<Prod>j\<in>{Suc (Suc k)..<i}. psi ! j))"
    by (rule sum_distrib_left [symmetric])
  finally have rest: "(\<Sum>i\<in>{Suc (Suc (Suc k))..<P}. phi ! i * (\<Prod>j\<in>{Suc k..<i}. psi ! j)) =
      psi ! Suc k * (\<Sum>i\<in>{Suc (Suc (Suc k))..<P}. phi ! i * (\<Prod>j\<in>{Suc (Suc k)..<i}. psi ! j))" .
  have prod: "(\<Prod>i\<in>{Suc k..<P}. psi ! i) = psi ! Suc k * (\<Prod>i\<in>{Suc (Suc k)..<P}. psi ! i)"
    using assms by (simp add: prod.atLeast_Suc_lessThan)
  show ?thesis
    unfolding backward_resolve_closed split rest prod
    by (simp add: algebra_simps)
qed

subsection \<open>The combination loops and the phases of one rank\<close>

lemma forward_combine_nth:
  assumes "length u = L"
  shows "length (forward_combine L phi psi ut u) = L"
    and "i < L \<Longrightarrow> forward_combine L phi psi ut u ! i = phi ! i + ut * psi ! i"
  using fold_fill_up [of L u "\<lambda>i. phi ! i + ut * psi ! i"] assms
  by (simp_all add: forward_combine_def)

lemma backward_combine_nth:
  assumes "length x = L"
  shows "length (backward_combine L phi psi xt x) = L"
    and "i < L \<Longrightarrow> backward_combine L phi psi xt x ! i = phi ! i + xt * psi ! i"
  using fold_fill_down [of L L x "\<lambda>i. phi ! i + xt * psi ! i"] assms
  by (simp_all add: backward_combine_def)

lemma backward_combine_eq:
  assumes "length x = L"
  shows "backward_combine L phi psi xt x = map (\<lambda>i. phi ! i + xt * psi ! i) [0..<L]"
  by (rule nth_equalityI) (simp_all add: backward_combine_nth [OF assms])

lemma forward_local_length:
  assumes "length phi0 = L" "length psi0 = L"
    and "forward_local k L beta r (phi0, psi0) = (phi, psi)"
  shows "length phi = L \<and> length psi = L"
proof -
  define s where "s = (if k = 0 then (phi0[0 := 0], psi0[0 := 1])
        else (phi0[0 := beta ! 0 * r ! 0], psi0[0 := - (1/3) * beta ! 0]))"
  have run: "fold (forward_step beta r) [1..<L] (fst s, snd s) = (phi, psi)"
    using assms(3) by (simp add: forward_local_def s_def)
  have len: "length (fst s) = L" "length (snd s) = L"
    using assms(1,2) by (simp_all add: s_def)
  from forward_loop_inv [OF len le_refl run] show ?thesis
    by simp
qed

lemma forward_phase_eq:
  assumes "forward_phase k L beta r pl ql uf = (phi, psi, u)"
  shows "forward_local k L beta r (malloc L, malloc L) = (phi, psi)"
    and "length phi = L" and "length psi = L" and "length u = L"
    and "i < L \<Longrightarrow> u ! i = phi ! i + forward_u_tilda k beta r pl ql uf * psi ! i"
proof -
  obtain p q where pq: "forward_local k L beta r (malloc L, malloc L) = (p, q)"
    by fastforce
  define u0 where "u0 = (if k = 0 then (initZeros (malloc L) L)[0 := beta ! 0 * r ! 0]
      else initZeros (malloc L) L)"
  have u0: "length u0 = L"
    by (simp add: u0_def initZeros_def malloc_def)
  from assms pq have eqs: "phi = p" "psi = q"
    "u = forward_combine L p q (forward_u_tilda k beta r pl ql uf) u0"
    by (auto simp: forward_phase_def Let_def u0_def split: if_splits)
  show "forward_local k L beta r (malloc L, malloc L) = (phi, psi)"
    using pq eqs by simp
  from forward_local_length [OF _ _ pq] show "length phi = L" "length psi = L"
    using eqs by (simp_all add: malloc_def)
  show "length u = L"
    using eqs forward_combine_nth(1) [OF u0] by simp
  show "u ! i = phi ! i + forward_u_tilda k beta r pl ql uf * psi ! i" if "i < L"
    using eqs forward_combine_nth(2) [OF u0 that] by simp
qed

lemma backward_local_facts:
  assumes "0 < L" "length phi0 = L" "length psi0 = L"
    and "backward_local k P L u gam gf (phi0, psi0) = (phi, psi)"
  shows "phi ! (L - 1) = (if k = P - 1 then 0 else u ! (L - 1))"
    and "psi ! (L - 1) = (if k = P - 1 then 1 else - gf ! (k + 1))"
    and "i + 1 < L \<Longrightarrow> phi ! i = u ! i - gam ! (i + 1) * phi ! (i + 1)"
    and "i + 1 < L \<Longrightarrow> psi ! i = - gam ! (i + 1) * psi ! (i + 1)"
proof -
  define s where "s = (if k = P - 1 then (phi0[L-1 := 0], psi0[L-1 := 1])
        else (phi0[L-1 := u ! (L-1)], psi0[L-1 := - gf ! (k+1)]))"
  have run: "fold (backward_step L u gam) [1..<L] (fst s, snd s) = (phi, psi)"
    using assms(4) by (simp add: backward_local_def s_def)
  have len: "length (fst s) = L" "length (snd s) = L"
    using assms(2,3) by (simp_all add: s_def)
  have seed: "fst s ! (L - 1) = (if k = P - 1 then 0 else u ! (L - 1))"
    "snd s ! (L - 1) = (if k = P - 1 then 1 else - gf ! (k + 1))"
    using assms(1,2,3) by (simp_all add: s_def)
  note inv = backward_loop_inv [OF len le_refl run]
  from inv seed show "phi ! (L - 1) = (if k = P - 1 then 0 else u ! (L - 1))"
    and "psi ! (L - 1) = (if k = P - 1 then 1 else - gf ! (k + 1))"
    by simp_all
  from inv show "i + 1 < L \<Longrightarrow> phi ! i = u ! i - gam ! (i + 1) * phi ! (i + 1)"
    and "i + 1 < L \<Longrightarrow> psi ! i = - gam ! (i + 1) * psi ! (i + 1)"
    by simp_all
qed

lemma forward_local_facts:
  assumes "0 < L" "length phi0 = L" "length psi0 = L"
    and "forward_local k L beta r (phi0, psi0) = (phi, psi)"
  shows "phi ! 0 = (if k = 0 then 0 else beta ! 0 * r ! 0)"
    and "psi ! 0 = (if k = 0 then 1 else - (1/3) * beta ! 0)"
    and "Suc i < L \<Longrightarrow> phi ! Suc i = beta ! Suc i * (r ! Suc i - (1/3) * phi ! i)"
    and "Suc i < L \<Longrightarrow> psi ! Suc i = - (1/3) * beta ! Suc i * psi ! i"
proof -
  define s where "s = (if k = 0 then (phi0[0 := 0], psi0[0 := 1])
        else (phi0[0 := beta ! 0 * r ! 0], psi0[0 := - (1/3) * beta ! 0]))"
  have run: "fold (forward_step beta r) [1..<L] (fst s, snd s) = (phi, psi)"
    using assms(4) by (simp add: forward_local_def s_def)
  have len: "length (fst s) = L" "length (snd s) = L"
    using assms(2,3) by (simp_all add: s_def)
  have seed: "fst s ! 0 = (if k = 0 then 0 else beta ! 0 * r ! 0)"
    "snd s ! 0 = (if k = 0 then 1 else - (1/3) * beta ! 0)"
    using assms(1,2,3) by (simp_all add: s_def)
  note inv = forward_loop_inv [OF len le_refl run]
  from inv seed show "phi ! 0 = (if k = 0 then 0 else beta ! 0 * r ! 0)"
    and "psi ! 0 = (if k = 0 then 1 else - (1/3) * beta ! 0)"
    by simp_all
  from inv have "\<forall>j. 1 \<le> j \<and> j < L \<longrightarrow>
        phi ! j = beta ! j * (r ! j - (1/3) * phi ! (j - 1)) \<and>
        psi ! j = - (1/3) * beta ! j * psi ! (j - 1)"
    by blast
  then have "Suc i < L \<longrightarrow>
        phi ! Suc i = beta ! Suc i * (r ! Suc i - (1/3) * phi ! (Suc i - 1)) \<and>
        psi ! Suc i = - (1/3) * beta ! Suc i * psi ! (Suc i - 1)"
    by (metis One_nat_def Suc_le_mono le0)
  then show "Suc i < L \<Longrightarrow> phi ! Suc i = beta ! Suc i * (r ! Suc i - (1/3) * phi ! i)"
    and "Suc i < L \<Longrightarrow> psi ! Suc i = - (1/3) * beta ! Suc i * psi ! i"
    by simp_all
qed

lemma backward_anchor_length: "length (backward_anchor k P L u x) = length x"
  by (simp add: backward_anchor_def)

lemma backward_x_tilda_last:
  "0 < L \<Longrightarrow> length x = L \<Longrightarrow>
   backward_x_tilda (P - 1) P L (backward_anchor (P - 1) P L u x) pf qf xl = u ! (L - 1)"
  by (simp add: backward_x_tilda_def backward_anchor_def)

lemma backward_x_tilda_other:
  "k \<noteq> P - 1 \<Longrightarrow> backward_x_tilda k P L x pf qf xl = backward_resolve k P pf qf xl"
  by (simp add: backward_x_tilda_def)

lemma solver_done:
  assumes "N mod P = 0" "0 < N div P" "length x = N div P"
    and "forward_phase k (N div P) beta r (phi_lasts nt) (psi_lasts nt) (u_first nt) =
           (phi, psi, u)"
    and "backward_local k P (N div P) u gam (gam_firsts nt) (phi, psi) = (phi', psi')"
  shows "nonperiodic_tridiagonal_solver k P nt beta gam r N x =
     (Done, map (\<lambda>i. phi' ! i +
         backward_x_tilda k P (N div P) (backward_anchor k P (N div P) u x)
           (phi_firsts nt) (psi_firsts nt) (x_last nt) * psi' ! i) [0..<N div P])"
  using assms
  by (simp add: nonperiodic_tridiagonal_solver_def Let_def backward_combine_eq
      backward_anchor_length)

lemma exchange_forward:
  "phi_lasts (exchange P L betas gams rs) =
     map (\<lambda>k. fst (forward_local k L (betas ! k) (rs ! k) (malloc L, malloc L)) ! (L - 1)) [0..<P]"
  "psi_lasts (exchange P L betas gams rs) =
     map (\<lambda>k. snd (forward_local k L (betas ! k) (rs ! k) (malloc L, malloc L)) ! (L - 1)) [0..<P]"
  "u_first (exchange P L betas gams rs) = (betas ! 0) ! 0 * (rs ! 0) ! 0"
  "gam_firsts (exchange P L betas gams rs) = map (\<lambda>k. (gams ! k) ! 0) [0..<P]"
  by (simp_all add: exchange_def Let_def)

lemma exchange_backward:
  fixes P L betas gams rs
  defines "nt \<equiv> exchange P L betas gams rs"
  defines "bwd \<equiv> (\<lambda>k. case forward_phase k L (betas ! k) (rs ! k)
                            (phi_lasts nt) (psi_lasts nt) (u_first nt) of
                      (phi_local, psi_local, u_local) \<Rightarrow>
                        (backward_local k P L u_local (gams ! k) (gam_firsts nt)
                           (phi_local, psi_local), u_local))"
  shows "phi_firsts nt = map (\<lambda>k. fst (fst (bwd k)) ! 0) [0..<P]"
    and "psi_firsts nt = map (\<lambda>k. snd (fst (bwd k)) ! 0) [0..<P]"
    and "x_last nt = snd (bwd (P - 1)) ! (L - 1)"
  by (simp_all add: nt_def bwd_def exchange_def Let_def)

subsection \<open>Uninitialised storage\<close>

text \<open>
  The sweeps assign every cell of \<open>phi_local\<close> and \<open>psi_local\<close> before reading it:
  for \<open>local_size > 0\<close> their results do not depend on what the arrays held before,
  so the fill value chosen for \<open>malloc\<close> has no influence.
\<close>

lemma forward_local_initial_content:
  assumes "0 < L" "length phi0 = L" "length psi0 = L"
  shows "forward_local k L beta r (phi0, psi0) = forward_local k L beta r (malloc L, malloc L)"
proof -
  obtain p q where a: "forward_local k L beta r (phi0, psi0) = (p, q)"
    by fastforce
  obtain p' q' where b: "forward_local k L beta r (malloc L, malloc L) = (p', q')"
    by fastforce
  have len: "length (malloc L) = L" by (simp add: malloc_def)
  note fa = forward_local_facts [OF assms a]
  note fb = forward_local_facts [OF assms(1) len len b]
  have same: "i < L \<Longrightarrow> p ! i = p' ! i \<and> q ! i = q' ! i" for i
  proof (induction i)
    case 0
    show ?case using fa(1,2) fb(1,2) by simp
  next
    case (Suc i)
    then show ?case using fa(3,4) [of i] fb(3,4) [of i] by simp
  qed
  have "p = p'"
    using forward_local_length [OF assms(2,3) a] forward_local_length [OF len len b] same
    by (intro nth_equalityI) simp_all
  moreover have "q = q'"
    using forward_local_length [OF assms(2,3) a] forward_local_length [OF len len b] same
    by (intro nth_equalityI) simp_all
  ultimately show ?thesis
    using a b by simp
qed

lemma backward_local_length:
  assumes "length phi0 = L" "length psi0 = L"
    and "backward_local k P L u gam gf (phi0, psi0) = (phi, psi)"
  shows "length phi = L \<and> length psi = L"
proof -
  define s where "s = (if k = P - 1 then (phi0[L-1 := 0], psi0[L-1 := 1])
        else (phi0[L-1 := u ! (L-1)], psi0[L-1 := - gf ! (k+1)]))"
  have run: "fold (backward_step L u gam) [1..<L] (fst s, snd s) = (phi, psi)"
    using assms(3) by (simp add: backward_local_def s_def)
  have len: "length (fst s) = L" "length (snd s) = L"
    using assms(1,2) by (simp_all add: s_def)
  from backward_loop_inv [OF len le_refl run] show ?thesis
    by simp
qed

lemma backward_local_initial_content:
  assumes "0 < L" "length phi0 = L" "length psi0 = L"
  shows "backward_local k P L u gam gf (phi0, psi0) =
         backward_local k P L u gam gf (malloc L, malloc L)"
proof -
  obtain p q where a: "backward_local k P L u gam gf (phi0, psi0) = (p, q)"
    by fastforce
  obtain p' q' where b: "backward_local k P L u gam gf (malloc L, malloc L) = (p', q')"
    by fastforce
  have len: "length (malloc L) = L" by (simp add: malloc_def)
  note fa = backward_local_facts [OF assms a]
  note fb = backward_local_facts [OF assms(1) len len b]
  have down: "d < L \<Longrightarrow> p ! (L - 1 - d) = p' ! (L - 1 - d) \<and> q ! (L - 1 - d) = q' ! (L - 1 - d)"
    for d
  proof (induction d)
    case 0
    show ?case using fa(1,2) fb(1,2) by simp
  next
    case (Suc d)
    then have i: "L - 1 - Suc d + 1 < L" "L - 1 - Suc d + 1 = L - 1 - d"
      by simp_all
    from Suc have "p ! (L - 1 - d) = p' ! (L - 1 - d) \<and> q ! (L - 1 - d) = q' ! (L - 1 - d)"
      by simp
    then show ?case
      using fa(3,4) [OF i(1)] fb(3,4) [OF i(1)] unfolding i(2) by simp
  qed
  have same: "p ! i = p' ! i \<and> q ! i = q' ! i" if "i < L" for i
  proof -
    from that have "L - 1 - i < L" "L - 1 - (L - 1 - i) = i" by simp_all
    with down [of "L - 1 - i"] show ?thesis by simp
  qed
  have lens: "length p = L" "length q = L" "length p' = L" "length q' = L"
    using backward_local_length [OF assms(2,3) a] backward_local_length [OF len len b]
    by simp_all
  have "p = p'" using lens same by (intro nth_equalityI) simp_all
  moreover have "q = q'" using lens same by (intro nth_equalityI) simp_all
  ultimately show ?thesis
    using a b by simp
qed

subsection \<open>The coupling scalar of rank 0\<close>

text \<open>
  C4 as stated: on rank 0 the coupling scalar is 0 and \<open>u_local[i] = phi_local[i]\<close>.
  The run of a single rank on the system of size 2 with right-hand side \<open>[1, 1]\<close>
  (coefficients \<open>beta = [1, 9/8]\<close>) refutes both parts.
\<close>

theorem rank0_u_tilda_counterexample:
  "forward_u_tilda 0 [1, 9/8] [1, 1] [9/8] [- 3/8] 1 \<noteq> 0 \<and>
   snd (snd (forward_phase 0 2 [1, 9/8] [1, 1] [9/8] [- 3/8] 1)) ! 0 \<noteq>
     fst (forward_phase 0 2 [1, 9/8] [1, 1] [9/8] [- 3/8] 1) ! 0 \<and>
   snd (snd (forward_phase 0 2 [1, 9/8] [1, 1] [9/8] [- 3/8] 1)) ! 1 \<noteq>
     fst (forward_phase 0 2 [1, 9/8] [1, 1] [9/8] [- 3/8] 1) ! 1"
proof -
  have "forward_phase 0 2 [1, 9/8] [1, 1] [9/8] [- 3/8] 1 = ([0, 9/8], [1, - 3/8], [1, 3/4])"
    by code_simp
  moreover have "forward_u_tilda 0 [1, 9/8] [1, 1] [9/8] [- 3/8] 1 = 1"
    by (simp add: forward_u_tilda_def)
  ultimately show ?thesis
    by simp
qed

text \<open>
  C4 as the code has it: rank 0 assigns \<open>u_tilda = u_local[0] = beta_local[0] *
  r_local[0]\<close> (lines 72--73) instead of running the loops of the reduced system, and
  the combination step uses that value; with the seeds \<open>phi_local[0] = 0\<close> and
  \<open>psi_local[0] = 1\<close> the first entry of \<open>u_local\<close> is \<open>beta_local[0] * r_local[0]\<close>.
\<close>

theorem rank0_u_tilda:
  assumes "0 < local_size"
    and "forward_phase 0 local_size beta_local r_local pl ql uf = (phi_local, psi_local, u_local)"
  shows "forward_u_tilda 0 beta_local r_local pl ql uf = beta_local ! 0 * r_local ! 0 \<and>
     (\<forall>i<local_size. u_local ! i =
         phi_local ! i + (beta_local ! 0 * r_local ! 0) * psi_local ! i) \<and>
     u_local ! 0 = beta_local ! 0 * r_local ! 0"
proof -
  have ut: "forward_u_tilda 0 beta_local r_local pl ql uf = beta_local ! 0 * r_local ! 0"
    by (simp add: forward_u_tilda_def)
  note ph = forward_phase_eq [OF assms(2)]
  have comb: "u_local ! i = phi_local ! i + (beta_local ! 0 * r_local ! 0) * psi_local ! i"
    if "i < local_size" for i
    using ph(5) [OF that] ut by simp
  have len: "length (malloc local_size) = local_size"
    by (simp add: malloc_def)
  have "phi_local ! 0 = 0" "psi_local ! 0 = 1"
    using forward_local_facts(1,2) [OF assms(1) len len ph(1)] by simp_all
  with comb [OF assms(1)] have "u_local ! 0 = beta_local ! 0 * r_local ! 0"
    by simp
  with ut comb show ?thesis
    by blast
qed

theorem rank0_u_tilda_witness:
  "forward_phase 0 2 [1, 9/8] [1, 1] [9/8] [- 3/8] 1 = ([0, 9/8], [1, - 3/8], [1, 3/4]) \<and>
   forward_u_tilda 0 [1, 9/8] [1, 1] [9/8] [- 3/8] 1 = [1, 9/8] ! 0 * [1, 1] ! 0 \<and>
   [1, 3/4 :: real] ! 1 = [0, 9/8] ! 1 + ([1, 9/8] ! 0 * [1, 1] ! 0) * [1, - 3/8] ! 1 \<and>
   [1, 3/4 :: real] ! 0 = [1, 9/8] ! 0 * [1, 1] ! 0"
proof -
  have run: "forward_phase 0 2 [1, 9/8] [1, 1] [9/8] [- 3/8] 1 =
      ([0, 9/8], [1, - 3/8], [1, 3/4])"
    by code_simp
  have pos: "(0::nat) < 2"
    by simp
  from rank0_u_tilda [OF pos run] run show ?thesis
    by simp
qed

subsection \<open>The reduced system of the forward sweep\<close>

text \<open>
  C6.  On a rank \<open>k > 0\<close> the loops of lines 80--90 compute the sum over \<open>i < k\<close> of
  \<open>phi_lasts[i]\<close> times the product of \<open>psi_lasts[j]\<close>, \<open>i < j < k\<close>, plus
  \<open>u_first\<close> times the product of all \<open>psi_lasts[i]\<close>, \<open>i < k\<close>; that value is the
  \<open>k\<close>-th term of the reduced recurrence started at \<open>u_first\<close>.
\<close>

theorem forward_resolve_recurrence:
  assumes "0 < k"
  shows "forward_u_tilda k beta_local r_local pl ql uf =
       (\<Sum>i<k. pl ! i * (\<Prod>j\<in>{i<..<k}. ql ! j)) + uf * (\<Prod>i<k. ql ! i) \<and>
     (\<Sum>i<k. pl ! i * (\<Prod>j\<in>{i<..<k}. ql ! j)) + uf * (\<Prod>i<k. ql ! i) =
       reduced_forward pl ql uf k"
proof -
  have "forward_u_tilda k beta_local r_local pl ql uf = forward_resolve k pl ql uf"
    using assms by (simp add: forward_u_tilda_def)
  moreover have "forward_resolve k pl ql uf =
      (\<Sum>i<k. pl ! i * (\<Prod>j\<in>{i<..<k}. ql ! j)) + uf * (\<Prod>i<k. ql ! i)"
    by (simp add: forward_resolve_closed atLeastSucLessThan_greaterThanLessThan)
  moreover note forward_resolve_reduced [of k pl ql uf]
  ultimately show ?thesis
    by simp
qed

theorem forward_resolve_recurrence_witness:
  "forward_u_tilda 2 [1, 9/8] [1, 1] [2, 3, 5] [7, 11, 13] 17 = 1334 \<and>
   reduced_forward [2, 3, 5] [7, 11, 13] 17 2 = 1334"
proof -
  have pos: "(0::nat) < 2"
    by simp
  have "reduced_forward [2, 3, 5] [7, 11, 13] 17 2 = 1334"
    by (simp add: numeral_2_eq_2)
  with forward_resolve_recurrence [OF pos, of "[1, 9/8]" "[1, 1]" "[2, 3, 5]" "[7, 11, 13]" 17]
  show ?thesis
    by simp
qed

subsection \<open>The backward sweep\<close>

text \<open>
  C7.  The backward local sweep: the last rank seeds \<open>phi_local[local_size-1] = 0\<close>
  and \<open>psi_local[local_size-1] = 1\<close>; every other rank seeds
  \<open>u_local[local_size-1]\<close> and \<open>-gam_firsts[rank+1]\<close>, where the all-gather has put
  the first \<open>gam\<close> value of rank \<open>rank+1\<close> into \<open>gam_firsts[rank+1]\<close>; every
  index below follows the substitution recurrence.
\<close>

theorem backward_local_sweep:
  assumes "0 < local_size" "rank < nprocs"
    and "length phi0 = local_size" "length psi0 = local_size"
    and "backward_local rank nprocs local_size u_local (gams ! rank)
           (gam_firsts (exchange nprocs local_size betas gams rs)) (phi0, psi0) =
         (phi_local, psi_local)"
  shows "(rank = nprocs - 1 \<longrightarrow>
        phi_local ! (local_size - 1) = 0 \<and> psi_local ! (local_size - 1) = 1) \<and>
     (rank \<noteq> nprocs - 1 \<longrightarrow>
        phi_local ! (local_size - 1) = u_local ! (local_size - 1) \<and>
        psi_local ! (local_size - 1) =
          - gam_firsts (exchange nprocs local_size betas gams rs) ! (rank + 1) \<and>
        gam_firsts (exchange nprocs local_size betas gams rs) ! (rank + 1) =
          (gams ! (rank + 1)) ! 0) \<and>
     (\<forall>i. i + 1 < local_size \<longrightarrow>
        phi_local ! i = u_local ! i - (gams ! rank) ! (i + 1) * phi_local ! (i + 1) \<and>
        psi_local ! i = - (gams ! rank) ! (i + 1) * psi_local ! (i + 1))"
proof -
  note facts = backward_local_facts [OF assms(1,3,4,5)]
  have "gam_firsts (exchange nprocs local_size betas gams rs) ! (rank + 1) =
          (gams ! (rank + 1)) ! 0" if "rank \<noteq> nprocs - 1"
  proof -
    from that assms(2) have "rank + 1 < nprocs" by simp
    then show ?thesis
      by (simp add: exchange_forward(4) del: upt_Suc)
  qed
  with facts show ?thesis
    by simp
qed

theorem backward_local_sweep_witness:
  "backward_local 0 2 2 [5, 7] ([[2, 3], [11, 13]] ! 0)
       (gam_firsts (exchange 2 2 [[1, 1], [1, 1]] [[2, 3], [11, 13]] [[1, 1], [1, 1]]))
       (malloc 2, malloc 2) = ([- 16, 7], [33, - 11]) \<and>
   [- 16, 7 :: real] ! (2 - 1) = [5, 7] ! (2 - 1) \<and>
   [33, - 11 :: real] ! (2 - 1) = - ([[2, 3], [11, 13]] ! (0 + 1)) ! 0 \<and>
   [- 16, 7 :: real] ! 0 = [5, 7] ! 0 - ([[2, 3], [11, 13]] ! 0) ! (0 + 1) * [- 16, 7] ! (0 + 1) \<and>
   [33, - 11 :: real] ! 0 = - ([[2, 3], [11, 13]] ! 0) ! (0 + 1) * [33, - 11] ! (0 + 1)"
proof -
  have len: "length (malloc 2) = 2"
    by (simp add: malloc_def)
  have run: "backward_local 0 2 2 [5, 7] ([[2, 3], [11, 13]] ! 0)
       (gam_firsts (exchange 2 2 [[1, 1], [1, 1]] [[2, 3], [11, 13]] [[1, 1], [1, 1]]))
       (malloc 2, malloc 2) = ([- 16, 7], [33, - 11])"
    by code_simp
  have pos: "(0::nat) < 2"
    by simp
  from backward_local_sweep [OF pos pos len len run] run show ?thesis
    by simp
qed

subsection \<open>The reduced system of the backward sweep and the final combination\<close>

text \<open>
  C8.  On a rank \<open>k < P - 1\<close> the loops of lines 139--153 compute the sum over the
  ranks \<open>i\<close> from \<open>k+2\<close> to \<open>P-1\<close> of \<open>phi_firsts[i]\<close> times the product of
  \<open>psi_firsts[j]\<close>, \<open>k+1 \<le> j < i\<close>, plus \<open>phi_firsts[k+1]\<close>, plus \<open>x_last\<close> times the
  product of \<open>psi_firsts[i]\<close>, \<open>k+1 \<le> i < P\<close>; the call then returns
  \<open>x_local[i] = phi_local[i] + x_tilda * psi_local[i]\<close> for every local index.
  The witness is rank 0 of the run with 4 ranks on the system of size 8 with
  right-hand side 1: both loops of the sum and the loop of the product run there.
\<close>

theorem backward_resolve_combine:
  assumes "system_size mod nprocs = 0" "0 < system_size div nprocs" "k + 1 < nprocs"
    and "length x_local = system_size div nprocs"
    and "forward_phase k (system_size div nprocs) beta_local r_local
           (phi_lasts nt) (psi_lasts nt) (u_first nt) = (phi_f, psi_f, u_local)"
    and "backward_local k nprocs (system_size div nprocs) u_local gam_local (gam_firsts nt)
           (phi_f, psi_f) = (phi_local, psi_local)"
    and "x_tilda = backward_x_tilda k nprocs (system_size div nprocs)
           (backward_anchor k nprocs (system_size div nprocs) u_local x_local)
           (phi_firsts nt) (psi_firsts nt) (x_last nt)"
    and "system_size div nprocs < 2 ^ 31"
  shows "x_tilda =
       (\<Sum>i\<in>{k+2..<nprocs}. phi_firsts nt ! i * (\<Prod>j\<in>{k+1..<i}. psi_firsts nt ! j)) +
       phi_firsts nt ! (k+1) +
       x_last nt * (\<Prod>i\<in>{k+1..<nprocs}. psi_firsts nt ! i) \<and>
     nonperiodic_tridiagonal_solver k nprocs nt beta_local gam_local r_local system_size x_local =
       (Done, map (\<lambda>i. phi_local ! i + x_tilda * psi_local ! i) [0..<system_size div nprocs])"
proof -
  from assms(3) have "k \<noteq> nprocs - 1" by simp
  then have "x_tilda = backward_resolve k nprocs (phi_firsts nt) (psi_firsts nt) (x_last nt)"
    using assms(7) by (simp add: backward_x_tilda_other)
  then have "x_tilda =
       (\<Sum>i\<in>{k+2..<nprocs}. phi_firsts nt ! i * (\<Prod>j\<in>{k+1..<i}. psi_firsts nt ! j)) +
       phi_firsts nt ! (k+1) +
       x_last nt * (\<Prod>i\<in>{k+1..<nprocs}. psi_firsts nt ! i)"
    by (simp add: backward_resolve_closed)
  moreover have "nonperiodic_tridiagonal_solver k nprocs nt beta_local gam_local r_local
       system_size x_local =
       (Done, map (\<lambda>i. phi_local ! i + x_tilda * psi_local ! i) [0..<system_size div nprocs])"
    unfolding assms(7) by (rule solver_done [OF assms(1,2,4,5,6)])
  ultimately show ?thesis
    by blast
qed


theorem backward_resolve_combine_witness:
  "nonperiodic_tridiagonal_solver 0 4
      \<lparr>phi_lasts = [9/8, 39/55, 267/377, 915/1292],
       psi_lasts = [- 3/8, 8/55, 55/377, 377/2584], u_first = 1,
       gam_firsts = [0, 3/8, 21/55, 144/377],
       phi_firsts = [3/4, 6/11, 15/29, 39/47],
       psi_firsts = [1/8, 8/55, 55/377, - 377/987], x_last = 63/76\<rparr>
      [1, 9/8] [0, 1/3] [1, 1] 8 [- 7, - 7] = (Done, [63/76, 39/76]) \<and>
   12/19 =
     (\<Sum>i\<in>{0+2..<4::nat}. [3/4, 6/11, 15/29, 39/47] ! i *
         (\<Prod>j\<in>{0+1..<i}. [1/8, 8/55, 55/377, - 377/987] ! j)) +
     [3/4, 6/11, 15/29, 39/47] ! (0+1) +
     63/76 * (\<Prod>i\<in>{0+1..<4::nat}. [1/8, 8/55, 55/377, - 377/987 :: real] ! i) \<and>
   [63/76, 39/76 :: real] = [3/4 + 12/19 * (1/8), 3/4 + 12/19 * (- 3/8)]"
proof -
  define nt where "nt = \<lparr>phi_lasts = [9/8, 39/55, 267/377, 915/1292],
       psi_lasts = [- 3/8, 8/55, 55/377, 377/2584], u_first = 1,
       gam_firsts = [0, 3/8, 21/55, 144/377],
       phi_firsts = [3/4, 6/11, 15/29, 39/47],
       psi_firsts = [1/8, 8/55, 55/377, - 377/987 :: real], x_last = 63/76\<rparr>"
  have h1: "(8::nat) mod 4 = 0" and h2: "(0::nat) < 8 div 4" and h3: "(0::nat) + 1 < 4"
    and h4: "length [- 7, - 7 :: real] = 8 div 4" and h8: "(8::nat) div 4 < 2 ^ 31"
    by simp_all
  have sel: "phi_lasts nt = [9/8, 39/55, 267/377, 915/1292]"
    "psi_lasts nt = [- 3/8, 8/55, 55/377, 377/2584]" "u_first nt = 1"
    "gam_firsts nt = [0, 3/8, 21/55, 144/377]" "phi_firsts nt = [3/4, 6/11, 15/29, 39/47]"
    "psi_firsts nt = [1/8, 8/55, 55/377, - 377/987]" "x_last nt = 63/76"
    by (simp_all add: nt_def)
  have h5: "forward_phase 0 (8 div 4) [1, 9/8] [1, 1] (phi_lasts nt) (psi_lasts nt)
      (u_first nt) = ([0, 9/8], [1, - 3/8], [1, 3/4])"
    unfolding sel by code_simp
  have h6: "backward_local 0 4 (8 div 4) [1, 3/4] [0, 1/3] (gam_firsts nt)
      ([0, 9/8], [1, - 3/8]) = ([3/4, 3/4], [1/8, - 3/8])"
    unfolding sel by code_simp
  have h7: "12/19 = backward_x_tilda 0 4 (8 div 4)
      (backward_anchor 0 4 (8 div 4) [1, 3/4] [- 7, - 7])
      (phi_firsts nt) (psi_firsts nt) (x_last nt)"
    unfolding sel by code_simp
  have cells: "map (\<lambda>i. [3/4, 3/4 :: real] ! i + 12/19 * [1/8, - 3/8] ! i) [0..<8 div 4] =
      [63/76, 39/76]"
    by code_simp
  from backward_resolve_combine [OF h1 h2 h3 h4 h5 h6 h7 h8] show ?thesis
    unfolding sel cells nt_def [symmetric] by simp
qed

subsection \<open>The coefficient pipeline\<close>

lemma pipeline_loop_inv:
  assumes "length b0 = L" "length g0 = L"
  shows "n \<le> L \<Longrightarrow> fold pipeline_step [1..<n] (b0, g0) = (b, g) \<Longrightarrow>
     length b = L \<and> length g = L \<and> b ! 0 = b0 ! 0 \<and> g ! 0 = g0 ! 0 \<and>
     (\<forall>i. 1 \<le> i \<and> i < n \<longrightarrow>
        b ! i = 1 / (1 - (1/3) * b ! (i - 1) * (1/3)) \<and> g ! i = b ! (i - 1) * (1/3))"
proof (induction n arbitrary: b g)
  case 0
  then show ?case using assms by simp
next
  case (Suc n)
  show ?case
  proof (cases "n = 0")
    case True
    with Suc.prems assms show ?thesis by simp
  next
    case False
    obtain p q where pq: "fold pipeline_step [1..<n] (b0, g0) = (p, q)"
      by fastforce
    from Suc.prems have nL: "n < L" by simp
    have IH: "length p = L \<and> length q = L \<and> p ! 0 = b0 ! 0 \<and> q ! 0 = g0 ! 0 \<and>
     (\<forall>i. 1 \<le> i \<and> i < n \<longrightarrow>
        p ! i = 1 / (1 - (1/3) * p ! (i - 1) * (1/3)) \<and> q ! i = p ! (i - 1) * (1/3))"
      using Suc.IH [OF _ pq] nL by simp
    from False have "fold pipeline_step [1..<Suc n] (b0, g0) = pipeline_step n (p, q)"
      using pq by simp
    with Suc.prems(2) have "pipeline_step n (p, q) = (b, g)"
      by simp
    then have b: "b = p[n := 1 / (1 - (1/3) * p ! (n - 1) * (1/3))]"
      and g: "g = q[n := p ! (n - 1) * (1/3)]"
      using False by (simp_all add: pipeline_step_def Let_def)
    have rec: "b ! i = 1 / (1 - (1/3) * b ! (i - 1) * (1/3)) \<and> g ! i = b ! (i - 1) * (1/3)"
      if "1 \<le> i" "i < Suc n" for i
    proof (cases "i = n")
      case True
      then show ?thesis using b g IH nL False by simp
    next
      case False
      with that have "i < n" by simp
      then show ?thesis using b g IH that by simp
    qed
    have "length b = L \<and> length g = L \<and> b ! 0 = b0 ! 0 \<and> g ! 0 = g0 ! 0"
      using b g IH False by simp
    with rec show ?thesis by blast
  qed
qed

lemma precompute_facts:
  assumes "0 < N div P" "length b0 = N div P" "length g0 = N div P"
  shows "\<exists>b g. precompute_beta_gam k P N lb b0 g0 = Some (b, g) \<and>
     length b = N div P \<and> length g = N div P \<and>
     b ! 0 = (if k = 0 then 1 else 1 / (1 - (1/3) * lb * (1/3))) \<and>
     g ! 0 = (if k = 0 then 0 else lb * (1/3)) \<and>
     (\<forall>i. Suc i < N div P \<longrightarrow>
        b ! Suc i = 1 / (1 - (1/3) * b ! i * (1/3)) \<and> g ! Suc i = b ! i * (1/3))"
proof -
  define s where "s = (if k = 0 then (b0[0 := 1], g0[0 := 0])
        else (b0[0 := 1 / (1 - (1/3) * lb * (1/3))], g0[0 := lb * (1/3)]))"
  obtain b g where run: "fold pipeline_step [1..<N div P] (fst s, snd s) = (b, g)"
    by fastforce
  have res: "precompute_beta_gam k P N lb b0 g0 = Some (b, g)"
    using assms(1) run by (simp add: precompute_beta_gam_def Let_def s_def)
  have len: "length (fst s) = N div P" "length (snd s) = N div P"
    using assms(2,3) by (simp_all add: s_def)
  have seed: "fst s ! 0 = (if k = 0 then 1 else 1 / (1 - (1/3) * lb * (1/3)))"
    "snd s ! 0 = (if k = 0 then 0 else lb * (1/3))"
    using assms by (simp_all add: s_def)
  note inv = pipeline_loop_inv [OF len le_refl run]
  have rec: "b ! Suc i = 1 / (1 - (1/3) * b ! i * (1/3)) \<and> g ! Suc i = b ! i * (1/3)"
    if "Suc i < N div P" for i
  proof -
    from inv have "1 \<le> Suc i \<and> Suc i < N div P \<longrightarrow>
        b ! Suc i = 1 / (1 - (1/3) * b ! (Suc i - 1) * (1/3)) \<and> g ! Suc i = b ! (Suc i - 1) * (1/3)"
      by blast
    with that show ?thesis by simp
  qed
  have "length b = N div P \<and> length g = N div P \<and>
     b ! 0 = (if k = 0 then 1 else 1 / (1 - (1/3) * lb * (1/3))) \<and>
     g ! 0 = (if k = 0 then 0 else lb * (1/3))"
    using inv seed by simp
  with res rec show ?thesis
    by blast
qed

text \<open>A rank that receives the right value continues the global sequences.\<close>

lemma precompute_block:
  assumes "0 < N div P" "length b0 = N div P" "length g0 = N div P"
    and "0 < k \<Longrightarrow> lb = beta_seq (k * (N div P) - 1)"
  shows "\<exists>b g. precompute_beta_gam k P N lb b0 g0 = Some (b, g) \<and>
     length b = N div P \<and> length g = N div P \<and>
     (\<forall>i < N div P. b ! i = beta_seq (k * (N div P) + i) \<and>
                     g ! i = gam_seq (k * (N div P) + i))"
proof -
  from precompute_facts [OF assms(1,2,3), of k lb]
  obtain b g where res: "precompute_beta_gam k P N lb b0 g0 = Some (b, g)"
    and len: "length b = N div P" "length g = N div P"
    and b0: "b ! 0 = (if k = 0 then 1 else 1 / (1 - (1/3) * lb * (1/3)))"
    and g0: "g ! 0 = (if k = 0 then 0 else lb * (1/3))"
    and rec: "\<forall>i. Suc i < N div P \<longrightarrow>
        b ! Suc i = 1 / (1 - (1/3) * b ! i * (1/3)) \<and> g ! Suc i = b ! i * (1/3)"
    by blast
  have first: "b ! 0 = beta_seq (k * (N div P)) \<and> g ! 0 = gam_seq (k * (N div P))"
  proof (cases "k = 0")
    case True
    then show ?thesis using b0 g0 by simp
  next
    case False
    then obtain m where m: "k * (N div P) = Suc m"
      using assms(1) by (cases "k * (N div P)") auto
    with False assms(4) have "lb = beta_seq m" by simp
    with False b0 g0 m show ?thesis by simp
  qed
  have bb: "b ! i = beta_seq (k * (N div P) + i)" if "i < N div P" for i
    using that
  proof (induction i)
    case 0
    then show ?case using first by simp
  next
    case (Suc i)
    then show ?case using rec by simp
  qed
  have gg: "g ! i = gam_seq (k * (N div P) + i)" if "i < N div P" for i
  proof (cases i)
    case 0
    then show ?thesis using first by simp
  next
    case (Suc j)
    with that have "j < N div P" by simp
    with Suc that show ?thesis using rec bb [of j] by simp
  qed
  from res len bb gg show ?thesis
    by blast
qed

subsection \<open>Cutting a vector into blocks\<close>

lemma block_bound: "k < P \<Longrightarrow> k * L + L \<le> P * (L::nat)"
proof -
  assume "k < P"
  then have "Suc k * L \<le> P * L"
    by (intro mult_le_mono1) simp
  then show ?thesis by (simp add: add.commute)
qed

lemma blocks_length: "length (blocks P L v) = P"
  by (simp add: blocks_def)

lemma blocks_nth_length:
  assumes "k < P" "length v = P * L"
  shows "length (blocks P L v ! k) = L"
  using assms block_bound [OF assms(1), of L] by (simp add: blocks_def del: upt_Suc)

lemma blocks_nth_nth:
  assumes "k < P" "i < L" "length v = P * L"
  shows "blocks P L v ! k ! i = v ! (k * L + i)"
  using assms block_bound [OF assms(1), of L] by (simp add: blocks_def del: upt_Suc)

lemma concat_blocks:
  fixes f :: "nat \<Rightarrow> real"
  shows "length xss = P \<Longrightarrow>
   (\<forall>k<P. length (xss ! k) = L \<and> (\<forall>i<L. xss ! k ! i = f (k * L + i))) \<Longrightarrow>
   concat xss = map f [0..<P * L]"
proof (induction xss arbitrary: P rule: rev_induct)
  case Nil
  then show ?case by simp
next
  case (snoc y ys)
  define n where "n = length ys"
  from snoc.prems(1) have P: "P = Suc n" by (simp add: n_def)
  have "\<forall>k<n. length (ys ! k) = L \<and> (\<forall>i<L. ys ! k ! i = f (k * L + i))"
  proof (intro allI impI)
    fix k assume "k < n"
    then have "(ys @ [y]) ! k = ys ! k" by (simp add: n_def nth_append)
    moreover from \<open>k < n\<close> P snoc.prems(2)
    have "length ((ys @ [y]) ! k) = L \<and> (\<forall>i<L. (ys @ [y]) ! k ! i = f (k * L + i))"
      by simp
    ultimately show "length (ys ! k) = L \<and> (\<forall>i<L. ys ! k ! i = f (k * L + i))"
      by simp
  qed
  then have IH: "concat ys = map f [0..<n * L]"
    using snoc.IH [of n] by (simp add: n_def)
  have "(ys @ [y]) ! n = y" by (simp add: n_def)
  with snoc.prems(2) P have y: "length y = L" "\<forall>i<L. y ! i = f (n * L + i)"
    by (metis lessI)+
  have "y = map f [n * L..<n * L + L]"
    by (rule nth_equalityI) (use y in auto)
  moreover have "[0..<Suc n * L] = [0..<n * L] @ [n * L..<n * L + L]"
    using upt_add_eq_append [of 0 "n * L" L] by (simp only: mult_Suc add.commute le0)
  ultimately show ?case
    using IH P by simp
qed

subsection \<open>The hand-off between the ranks\<close>

lemma pipeline_turns:
  assumes "0 < N div P" "length bb = P" "length gb = P"
    and "\<forall>k<P. length (bb ! k) = N div P \<and> length (gb ! k) = N div P"
  shows "n \<le> P \<Longrightarrow>
     \<exists>fin lb. fold (pipeline_turn P N bb gb) [0..<n] (Some ([], 0)) = Some (fin, lb) \<and>
       length fin = n \<and>
       (0 < n \<longrightarrow> lb = beta_seq (n * (N div P) - 1)) \<and>
       (\<forall>k<n. length (fst (fin ! k)) = N div P \<and> length (snd (fin ! k)) = N div P \<and>
          (\<forall>i < N div P. fst (fin ! k) ! i = beta_seq (k * (N div P) + i) \<and>
                          snd (fin ! k) ! i = gam_seq (k * (N div P) + i)))"
proof (induction n)
  case 0
  show ?case by simp
next
  case (Suc n)
  then obtain fin lb where
    run: "fold (pipeline_turn P N bb gb) [0..<n] (Some ([], 0)) = Some (fin, lb)"
    and len: "length fin = n"
    and lb: "0 < n \<longrightarrow> lb = beta_seq (n * (N div P) - 1)"
    and old: "\<forall>k<n. length (fst (fin ! k)) = N div P \<and> length (snd (fin ! k)) = N div P \<and>
          (\<forall>i < N div P. fst (fin ! k) ! i = beta_seq (k * (N div P) + i) \<and>
                          snd (fin ! k) ! i = gam_seq (k * (N div P) + i))"
    by auto
  from Suc.prems assms(4) have bufs: "length (bb ! n) = N div P" "length (gb ! n) = N div P"
    by simp_all
  from precompute_block [OF assms(1) bufs, of n lb] lb
  obtain b g where res: "precompute_beta_gam n P N lb (bb ! n) (gb ! n) = Some (b, g)"
    and blen: "length b = N div P" "length g = N div P"
    and vals: "\<forall>i < N div P. b ! i = beta_seq (n * (N div P) + i) \<and>
                     g ! i = gam_seq (n * (N div P) + i)"
    by blast
  have step: "fold (pipeline_turn P N bb gb) [0..<Suc n] (Some ([], 0)) =
      Some (fin @ [(b, g)], b ! (N div P - 1))"
    using run res by (simp add: pipeline_turn_def)
  have last: "b ! (N div P - 1) = beta_seq (Suc n * (N div P) - 1)"
  proof -
    have "N div P - 1 < N div P" using assms(1) by simp
    with vals have "b ! (N div P - 1) = beta_seq (n * (N div P) + (N div P - 1))"
      by blast
    moreover have "n * (N div P) + (N div P - 1) = Suc n * (N div P) - 1"
      using assms(1) by simp
    ultimately show ?thesis by simp
  qed
  have new: "length (fst ((fin @ [(b, g)]) ! k)) = N div P \<and>
          length (snd ((fin @ [(b, g)]) ! k)) = N div P \<and>
          (\<forall>i < N div P. fst ((fin @ [(b, g)]) ! k) ! i = beta_seq (k * (N div P) + i) \<and>
                          snd ((fin @ [(b, g)]) ! k) ! i = gam_seq (k * (N div P) + i))"
    if "k < Suc n" for k
  proof (cases "k = n")
    case True
    have "(fin @ [(b, g)]) ! n = (b, g)"
      using len nth_append_length [of fin "(b, g)" "[]"] by simp
    with True show ?thesis using blen vals by simp
  next
    case False
    with that have "k < n" by simp
    then have "(fin @ [(b, g)]) ! k = fin ! k"
      using len by (simp add: nth_append)
    with \<open>k < n\<close> show ?thesis using old by simp
  qed
  from step last new len show ?case
    by (intro exI [of _ "fin @ [(b, g)]"] exI [of _ "b ! (N div P - 1)"]) simp
qed

lemma run_pipeline_blocks:
  assumes "0 < N div P" "length bb = P" "length gb = P"
    and "\<forall>k<P. length (bb ! k) = N div P \<and> length (gb ! k) = N div P"
  shows "\<exists>bg. run_pipeline P N bb gb = Some bg \<and> length bg = P \<and>
       (\<forall>k<P. length (fst (bg ! k)) = N div P \<and> length (snd (bg ! k)) = N div P \<and>
          (\<forall>i < N div P. fst (bg ! k) ! i = beta_seq (k * (N div P) + i) \<and>
                          snd (bg ! k) ! i = gam_seq (k * (N div P) + i)))"
  using pipeline_turns [OF assms le_refl] by (auto simp: run_pipeline_def)

lemma pipeline_concat:
  assumes "0 < N" "P dvd N" "length b0 = N" "length g0 = N"
  shows "\<exists>bg. run_pipeline P N (blocks P (N div P) b0) (blocks P (N div P) g0) = Some bg \<and>
     length bg = P \<and>
     (\<forall>k<P. length (fst (bg ! k)) = N div P \<and> length (snd (bg ! k)) = N div P \<and>
          (\<forall>i < N div P. fst (bg ! k) ! i = beta_seq (k * (N div P) + i) \<and>
                          snd (bg ! k) ! i = gam_seq (k * (N div P) + i))) \<and>
     concat (map fst bg) = map beta_seq [0..<N] \<and>
     concat (map snd bg) = map gam_seq [0..<N]"
proof -
  from assms(2) have N: "N = P * (N div P)" by simp
  with assms(1) have L: "0 < N div P"
    by (metis mult_0_right neq0_conv)
  have lens: "\<forall>k<P. length (blocks P (N div P) b0 ! k) = N div P \<and>
      length (blocks P (N div P) g0 ! k) = N div P"
    using blocks_nth_length [of _ P _ "N div P"] assms(3,4) N by metis
  from run_pipeline_blocks [OF L blocks_length blocks_length lens]
  obtain bg where run: "run_pipeline P N (blocks P (N div P) b0) (blocks P (N div P) g0) = Some bg"
    and len: "length bg = P"
    and vals: "\<forall>k<P. length (fst (bg ! k)) = N div P \<and> length (snd (bg ! k)) = N div P \<and>
          (\<forall>i < N div P. fst (bg ! k) ! i = beta_seq (k * (N div P) + i) \<and>
                          snd (bg ! k) ! i = gam_seq (k * (N div P) + i))"
    by blast
  have "concat (map fst bg) = map beta_seq [0..<P * (N div P)]"
    by (rule concat_blocks) (use len vals in simp_all)
  moreover have "concat (map snd bg) = map gam_seq [0..<P * (N div P)]"
    by (rule concat_blocks) (use len vals in simp_all)
  ultimately show ?thesis
    using run len vals N by metis
qed

text \<open>
  C2.  For a system size that the number of ranks divides, with a block size that
  fits the \<open>int\<close> variable \<open>local_size\<close>, the pipeline returns on every rank, and
  the ranks' \<open>beta_local\<close> and \<open>gam_local\<close> arrays, put one after the other, are
  the sequences of the global recurrence \<open>beta[0] = 1\<close>, \<open>gam[0] = 0\<close>,
  \<open>beta[i] = 1 / (1 - (1/3) beta[i-1] (1/3))\<close>, \<open>gam[i] = beta[i-1] (1/3)\<close>.
\<close>

theorem pipeline_global_recurrence:
  assumes "0 < system_size" "nprocs dvd system_size"
    and "length b0 = system_size" "length g0 = system_size"
    and "system_size div nprocs < 2 ^ 31"
  shows "\<exists>bg. run_pipeline nprocs system_size
             (blocks nprocs (system_size div nprocs) b0)
             (blocks nprocs (system_size div nprocs) g0) = Some bg \<and>
     length bg = nprocs \<and>
     concat (map fst bg) = map beta_seq [0..<system_size] \<and>
     concat (map snd bg) = map gam_seq [0..<system_size]"
  using pipeline_concat [OF assms(1,2,3,4)] by blast

theorem pipeline_global_recurrence_witness:
  "run_pipeline 2 4 (blocks 2 (4 div 2) [7, 7, 7, 7]) (blocks 2 (4 div 2) [8, 8, 8, 8]) =
     Some [([1, 9/8], [0, 1/3]), ([8/7, 63/55], [3/8, 8/21])] \<and>
   map beta_seq [0..<4] = [1, 9/8, 8/7, 63/55] \<and>
   map gam_seq [0..<4] = [0, 1/3, 3/8, 8/21]"
proof -
  have h: "(0::nat) < 4" "(2::nat) dvd 4" "length [7, 7, 7, 7 :: real] = 4"
    "length [8, 8, 8, 8 :: real] = 4" "(4::nat) div 2 < 2 ^ 31"
    by simp_all
  have run: "run_pipeline 2 4 (blocks 2 (4 div 2) [7, 7, 7, 7]) (blocks 2 (4 div 2) [8, 8, 8, 8]) =
     Some [([1, 9/8], [0, 1/3]), ([8/7, 63/55], [3/8, 8/21])]"
    by code_simp
  from pipeline_global_recurrence [OF h] run show ?thesis
    by simp
qed

subsection \<open>Range of the coefficients\<close>

lemma sqrt5_bounds: "2 < sqrt 5" "sqrt 5 < 7/3"
proof -
  have sq: "sqrt 5 * sqrt 5 = 5" by simp
  have nn: "0 \<le> sqrt 5" by simp
  show "2 < sqrt 5"
  proof (rule ccontr)
    assume "\<not> 2 < sqrt 5"
    then have "sqrt 5 \<le> 2" by simp
    with nn have "sqrt 5 * sqrt 5 \<le> 2 * 2" by (intro mult_mono) simp_all
    with sq show False by simp
  qed
  show "sqrt 5 < 7/3"
  proof (rule ccontr)
    assume "\<not> sqrt 5 < 7/3"
    then have "7/3 \<le> sqrt 5" by simp
    then have "(7/3) * (7/3) \<le> sqrt 5 * sqrt 5" by (intro mult_mono) simp_all
    with sq show False by simp
  qed
qed

lemma beta_limit_bounds: "1 < beta_limit" "beta_limit < 3/2"
  using sqrt5_bounds by (simp_all add: beta_limit_def)

lemma beta_limit_root: "beta_limit * (9 - beta_limit) = 9"
proof -
  have "sqrt 5 * sqrt 5 = 5" by simp
  then show ?thesis
    by (simp add: beta_limit_def field_simps)
qed

lemma beta_step:
  assumes "1 \<le> b" "b < beta_limit"
  shows "1 \<le> 1 / (1 - (1/3) * b * (1/3))"
    and "1 / (1 - (1/3) * b * (1/3)) < beta_limit"
    and "b < 1 / (1 - (1/3) * b * (1/3))"
    and "0 < 1 - (1/3) * b * (1/3)"
proof -
  from assms beta_limit_bounds have pos: "0 < 9 - b" by simp
  have eq: "1 / (1 - (1/3) * b * (1/3)) = 9 / (9 - b)"
    using pos by (simp add: field_simps)
  show "0 < 1 - (1/3) * b * (1/3)"
    using pos by simp
  show "1 \<le> 1 / (1 - (1/3) * b * (1/3))"
    unfolding eq using pos assms(1) by (simp add: field_simps)
  have "0 < beta_limit * (beta_limit - b)"
    using assms beta_limit_bounds by simp
  then have "9 < beta_limit * (9 - b)"
    using beta_limit_root by (simp add: algebra_simps)
  then show "1 / (1 - (1/3) * b * (1/3)) < beta_limit"
    unfolding eq using pos by (simp add: field_simps)
  have "0 < (beta_limit - b) * (9 - beta_limit - b)"
    using assms beta_limit_bounds by (intro mult_pos_pos) simp_all
  moreover have "(beta_limit - b) * (9 - beta_limit - b) = 9 - b * (9 - b)"
    using beta_limit_root by (simp add: algebra_simps)
  ultimately have "b * (9 - b) < 9" by simp
  then show "b < 1 / (1 - (1/3) * b * (1/3))"
    unfolding eq using pos by (simp add: field_simps)
qed

lemma beta_seq_range: "1 \<le> beta_seq i \<and> beta_seq i < beta_limit"
proof (induction i)
  case 0
  show ?case using beta_limit_bounds by simp
next
  case (Suc i)
  then show ?case using beta_step(1,2) [of "beta_seq i"] by simp
qed


lemma beta_seq_denominator: "0 < 1 - (1/3) * beta_seq i * (1/3)"
  using beta_step(4) [of "beta_seq i"] beta_seq_range [of i] by simp



subsection \<open>The local sweeps are affine in the coupling scalar\<close>

lemma sequential_solution_last:
  "0 < n \<Longrightarrow> sequential_solution B G R n (n - 1) = forward_subst B R (n - 1)"
  by (simp add: sequential_solution_def)

lemma sequential_solution_step:
  assumes "i + 1 < n"
  shows "sequential_solution B G R n i =
     forward_subst B R i - G (i + 1) * sequential_solution B G R n (i + 1)"
proof -
  from assms have "n - 1 - i = Suc (n - 1 - (i + 1))" by simp
  moreover from assms have "n - 1 - Suc (n - 1 - (i + 1)) = i" by simp
  ultimately show ?thesis
    by (simp add: sequential_solution_def)
qed

lemma forward_affine:
  assumes "0 < L" "forward_local k L beta r (malloc L, malloc L) = (phi, psi)"
    and "\<forall>i<L. beta ! i = B (k * L + i) \<and> r ! i = R (k * L + i)"
    and "c = (if k = 0 then forward_subst B R 0 else forward_subst B R (k * L - 1))"
  shows "i < L \<Longrightarrow> phi ! i + c * psi ! i = forward_subst B R (k * L + i)"
proof (induction i)
  case 0
  have len: "length (malloc L) = L" by (simp add: malloc_def)
  note seeds = forward_local_facts(1,2) [OF assms(1) len len assms(2)]
  show ?case
  proof (cases "k = 0")
    case True
    with seeds assms(4) show ?thesis by simp
  next
    case False
    then obtain m where m: "k * L = Suc m"
      using assms(1) by (cases "k * L") auto
    from assms(1,3) have "beta ! 0 = B (k * L)" "r ! 0 = R (k * L)"
      by simp_all
    with False seeds assms(4) m show ?thesis
      by (simp add: algebra_simps)
  qed
next
  case (Suc i)
  have len: "length (malloc L) = L" by (simp add: malloc_def)
  from Suc.prems have rec: "phi ! Suc i = beta ! Suc i * (r ! Suc i - (1/3) * phi ! i)"
      "psi ! Suc i = - (1/3) * beta ! Suc i * psi ! i"
    using forward_local_facts(3,4) [OF assms(1) len len assms(2)] by simp_all
  from Suc.prems assms(3) have inp: "beta ! Suc i = B (k * L + Suc i)" "r ! Suc i = R (k * L + Suc i)"
    by simp_all
  from Suc have IH: "phi ! i + c * psi ! i = forward_subst B R (k * L + i)"
    by simp
  have "phi ! Suc i + c * psi ! Suc i =
      beta ! Suc i * (r ! Suc i - (1/3) * (phi ! i + c * psi ! i))"
    unfolding rec by (simp add: algebra_simps)
  then show ?case
    unfolding IH inp by simp
qed

lemma backward_affine:
  assumes "0 < L" "k < P" "length phi0 = L" "length psi0 = L"
    and "backward_local k P L u gam gf (phi0, psi0) = (phi, psi)"
    and "\<forall>i<L. u ! i = forward_subst B R (k * L + i) \<and> gam ! i = G (k * L + i)"
    and "k + 1 < P \<longrightarrow> gf ! (k + 1) = G ((k + 1) * L)"
    and "c = sequential_solution B G R (P * L) (if k = P - 1 then P * L - 1 else (k + 1) * L)"
  shows "d < L \<Longrightarrow> phi ! (L - 1 - d) + c * psi ! (L - 1 - d) =
           sequential_solution B G R (P * L) (k * L + (L - 1 - d))"
proof (induction d)
  case 0
  note seeds = backward_local_facts(1,2) [OF assms(1,3,4,5)]
  have u: "u ! (L - 1) = forward_subst B R (k * L + (L - 1))"
    using assms(1,6) by simp
  show ?case
  proof (cases "k = P - 1")
    case True
    with assms(1,2) have "k * L + (L - 1) = P * L - 1"
      by (cases P) simp_all
    moreover have "0 < P * L" using assms(1,2) by simp
    ultimately show ?thesis
      using True seeds assms(8) by simp
  next
    case False
    with assms(2) have k1: "k + 1 < P" by simp
    then have "(k + 1) * L + L \<le> P * L"
      by (rule block_bound)
    with assms(1) have "k * L + (L - 1) + 1 < P * L" by simp
    from sequential_solution_step [OF this, of B G R]
    have "sequential_solution B G R (P * L) (k * L + (L - 1)) =
        forward_subst B R (k * L + (L - 1)) -
        G ((k + 1) * L) * sequential_solution B G R (P * L) ((k + 1) * L)"
      using assms(1) by (simp add: add.commute)
    with False seeds u k1 assms(7,8) show ?thesis
      by (simp add: algebra_simps)
  qed
next
  case (Suc d)
  define i where "i = L - 1 - Suc d"
  from Suc.prems have i: "i + 1 < L" "L - 1 - d = i + 1"
    by (simp_all add: i_def)
  have rec: "phi ! i = u ! i - gam ! (i + 1) * phi ! (i + 1)"
    "psi ! i = - gam ! (i + 1) * psi ! (i + 1)"
    using backward_local_facts(3,4) [OF assms(1,3,4,5) i(1)] by simp_all
  from i assms(6) have inp: "u ! i = forward_subst B R (k * L + i)"
    "gam ! (i + 1) = G (k * L + (i + 1))"
    by simp_all
  from Suc.prems have "d < L" by simp
  from Suc.IH [OF this] have IH: "phi ! (i + 1) + c * psi ! (i + 1) =
      sequential_solution B G R (P * L) (k * L + (i + 1))"
    unfolding i(2) .
  have "k * L + L \<le> P * L"
    using assms(2) by (rule block_bound)
  with i have "k * L + i + 1 < P * L" by simp
  from sequential_solution_step [OF this, of B G R]
  have step: "sequential_solution B G R (P * L) (k * L + i) =
      forward_subst B R (k * L + i) -
      G (k * L + (i + 1)) * sequential_solution B G R (P * L) (k * L + (i + 1))"
    by (simp add: add.assoc)
  have "phi ! i + c * psi ! i = u ! i - gam ! (i + 1) * (phi ! (i + 1) + c * psi ! (i + 1))"
    unfolding rec by (simp add: algebra_simps)
  then show ?case
    unfolding IH inp step i_def [symmetric] by simp
qed

subsection \<open>The forward sweep over all ranks\<close>

lemma rank_forward_last:
  fixes B R :: "nat \<Rightarrow> real"
  defines "U \<equiv> forward_subst B R"
  assumes "0 < L" "j < P"
    and "\<forall>k<P. \<forall>i<L. betas ! k ! i = B (k * L + i) \<and> rs ! k ! i = R (k * L + i)"
  shows "phi_lasts (exchange P L betas gams rs) ! j +
         (if j = 0 then U 0 else U (j * L - 1)) * psi_lasts (exchange P L betas gams rs) ! j =
         U (j * L + (L - 1))"
proof -
  obtain phi psi where
    fl: "forward_local j L (betas ! j) (rs ! j) (malloc L, malloc L) = (phi, psi)"
    by fastforce
  from assms(3) have "phi_lasts (exchange P L betas gams rs) ! j = phi ! (L - 1)"
    "psi_lasts (exchange P L betas gams rs) ! j = psi ! (L - 1)"
    using fl by (simp_all add: exchange_forward del: upt_Suc)
  moreover have inp: "\<forall>i<L. (betas ! j) ! i = B (j * L + i) \<and> (rs ! j) ! i = R (j * L + i)"
    using assms(3,4) by simp
  have "L - 1 < L" using assms(2) by simp
  from forward_affine [OF assms(2) fl inp refl this]
  have "phi ! (L - 1) + (if j = 0 then U 0 else U (j * L - 1)) * psi ! (L - 1) =
      U (j * L + (L - 1))"
    unfolding U_def .
  ultimately show ?thesis by (simp only:)
qed

lemma forward_coupling:
  fixes B R :: "nat \<Rightarrow> real"
  assumes "0 < L"
    and "\<forall>k<P. \<forall>i<L. betas ! k ! i = B (k * L + i) \<and> rs ! k ! i = R (k * L + i)"
  shows "j < P \<Longrightarrow>
     reduced_forward (phi_lasts (exchange P L betas gams rs))
       (psi_lasts (exchange P L betas gams rs)) (u_first (exchange P L betas gams rs)) (Suc j) =
     forward_subst B R (Suc j * L - 1)"
proof (induction j)
  case 0
  from 0 assms have "u_first (exchange P L betas gams rs) = forward_subst B R 0"
    by (simp add: exchange_forward)
  with rank_forward_last [OF assms(1) 0 assms(2), of gams] show ?case
    by (simp add: mult.commute)
next
  case (Suc j)
  then have IH: "reduced_forward (phi_lasts (exchange P L betas gams rs))
       (psi_lasts (exchange P L betas gams rs)) (u_first (exchange P L betas gams rs)) (Suc j) =
     forward_subst B R (Suc j * L - 1)"
    by simp
  have "Suc j * L + (L - 1) = Suc (Suc j) * L - 1"
    using assms(1) by simp
  with rank_forward_last [OF assms(1) Suc.prems assms(2), of gams] show ?case
    unfolding reduced_forward.simps(2) [of _ _ _ "Suc j"] IH
    by (simp add: mult.commute)
qed

lemma forward_u_tilda_value:
  fixes B R :: "nat \<Rightarrow> real"
  assumes "0 < L" "k < P"
    and "\<forall>k<P. \<forall>i<L. betas ! k ! i = B (k * L + i) \<and> rs ! k ! i = R (k * L + i)"
  shows "forward_u_tilda k (betas ! k) (rs ! k) (phi_lasts (exchange P L betas gams rs))
       (psi_lasts (exchange P L betas gams rs)) (u_first (exchange P L betas gams rs)) =
     (if k = 0 then forward_subst B R 0 else forward_subst B R (k * L - 1))"
proof (cases k)
  case 0
  with assms show ?thesis by (simp add: forward_u_tilda_def)
next
  case (Suc j)
  with assms(2) have "j < P" by simp
  from forward_coupling [OF assms(1,3) this, of gams] Suc show ?thesis
    by (simp add: forward_u_tilda_def forward_resolve_reduced)
qed

lemma forward_phase_values:
  fixes B R :: "nat \<Rightarrow> real"
  assumes "0 < L" "k < P"
    and "\<forall>k<P. \<forall>i<L. betas ! k ! i = B (k * L + i) \<and> rs ! k ! i = R (k * L + i)"
    and "forward_phase k L (betas ! k) (rs ! k) (phi_lasts (exchange P L betas gams rs))
       (psi_lasts (exchange P L betas gams rs)) (u_first (exchange P L betas gams rs)) =
       (phi, psi, u)"
  shows "\<forall>i<L. u ! i = forward_subst B R (k * L + i)"
proof (intro allI impI)
  fix i assume i: "i < L"
  note ph = forward_phase_eq [OF assms(4)]
  have inp: "\<forall>i<L. (betas ! k) ! i = B (k * L + i) \<and> (rs ! k) ! i = R (k * L + i)"
    using assms(2,3) by simp
  from forward_affine [OF assms(1) ph(1) inp refl i]
  show "u ! i = forward_subst B R (k * L + i)"
    unfolding ph(5) [OF i] forward_u_tilda_value [OF assms(1,2,3)] .
qed

subsection \<open>The backward sweep over all ranks\<close>

lemma rank_backward:
  fixes B G R :: "nat \<Rightarrow> real"
  assumes "0 < L" "j < P"
    and "\<forall>k<P. \<forall>i<L. betas ! k ! i = B (k * L + i) \<and> rs ! k ! i = R (k * L + i)"
    and "\<forall>k<P. \<forall>i<L. gams ! k ! i = G (k * L + i)"
  shows "\<exists>phi psi u phi' psi'.
     forward_phase j L (betas ! j) (rs ! j) (phi_lasts (exchange P L betas gams rs))
       (psi_lasts (exchange P L betas gams rs)) (u_first (exchange P L betas gams rs)) =
       (phi, psi, u) \<and>
     backward_local j P L u (gams ! j) (gam_firsts (exchange P L betas gams rs)) (phi, psi) =
       (phi', psi') \<and>
     phi_firsts (exchange P L betas gams rs) ! j = phi' ! 0 \<and>
     psi_firsts (exchange P L betas gams rs) ! j = psi' ! 0 \<and>
     (\<forall>i<L. u ! i = forward_subst B R (j * L + i)) \<and>
     (\<forall>i<L. phi' ! i +
        sequential_solution B G R (P * L) (if j = P - 1 then P * L - 1 else (j + 1) * L) * psi' ! i =
        sequential_solution B G R (P * L) (j * L + i))"
proof -
  define nt where "nt = exchange P L betas gams rs"
  obtain phi psi u where fp: "forward_phase j L (betas ! j) (rs ! j) (phi_lasts nt)
       (psi_lasts nt) (u_first nt) = (phi, psi, u)"
    by (metis prod_cases3)
  obtain phi' psi' where bl:
    "backward_local j P L u (gams ! j) (gam_firsts nt) (phi, psi) = (phi', psi')"
    by fastforce
  note ph = forward_phase_eq [OF fp]
  have firsts: "phi_firsts nt ! j = phi' ! 0" "psi_firsts nt ! j = psi' ! 0"
    using assms(2) fp bl unfolding nt_def
    by (simp_all add: exchange_backward del: upt_Suc)
  have u: "\<forall>i<L. u ! i = forward_subst B R (j * L + i)"
    using forward_phase_values [OF assms(1,2,3) fp [unfolded nt_def]] .
  have inp: "\<forall>i<L. u ! i = forward_subst B R (j * L + i) \<and> (gams ! j) ! i = G (j * L + i)"
    using u assms(2,4) by simp
  have gf: "j + 1 < P \<longrightarrow> gam_firsts nt ! (j + 1) = G ((j + 1) * L)"
    using assms(1,4) unfolding nt_def by (auto simp add: exchange_forward simp del: upt_Suc)
  have aff: "phi' ! i +
        sequential_solution B G R (P * L) (if j = P - 1 then P * L - 1 else (j + 1) * L) * psi' ! i =
        sequential_solution B G R (P * L) (j * L + i)" if "i < L" for i
  proof -
    from that have d: "L - 1 - i < L" "L - 1 - (L - 1 - i) = i" by simp_all
    from backward_affine [OF assms(1,2) ph(2,3) bl inp gf refl d(1)] show ?thesis
      unfolding d(2) .
  qed
  from fp bl firsts u aff show ?thesis
    unfolding nt_def by blast
qed

lemma rank_first_affine:
  fixes B G R :: "nat \<Rightarrow> real"
  assumes "0 < L" "j < P"
    and "\<forall>k<P. \<forall>i<L. betas ! k ! i = B (k * L + i) \<and> rs ! k ! i = R (k * L + i)"
    and "\<forall>k<P. \<forall>i<L. gams ! k ! i = G (k * L + i)"
  shows "phi_firsts (exchange P L betas gams rs) ! j +
      sequential_solution B G R (P * L) (if j = P - 1 then P * L - 1 else (j + 1) * L) *
      psi_firsts (exchange P L betas gams rs) ! j =
      sequential_solution B G R (P * L) (j * L)"
proof -
  from rank_backward [OF assms]
  obtain phi' psi' where
    "phi_firsts (exchange P L betas gams rs) ! j = phi' ! 0"
    "psi_firsts (exchange P L betas gams rs) ! j = psi' ! 0"
    "\<forall>i<L. phi' ! i +
        sequential_solution B G R (P * L) (if j = P - 1 then P * L - 1 else (j + 1) * L) * psi' ! i =
        sequential_solution B G R (P * L) (j * L + i)"
    by blast
  with assms(1) show ?thesis
    by (metis add.right_neutral)
qed

lemma x_last_value:
  fixes B R :: "nat \<Rightarrow> real"
  assumes "0 < L" "0 < P"
    and "\<forall>k<P. \<forall>i<L. betas ! k ! i = B (k * L + i) \<and> rs ! k ! i = R (k * L + i)"
  shows "x_last (exchange P L betas gams rs) = forward_subst B R (P * L - 1)"
proof -
  define nt where "nt = exchange P L betas gams rs"
  obtain phi psi u where fp: "forward_phase (P - 1) L (betas ! (P - 1)) (rs ! (P - 1))
       (phi_lasts nt) (psi_lasts nt) (u_first nt) = (phi, psi, u)"
    by (metis prod_cases3)
  have "P - 1 < P" using assms(2) by simp
  from forward_phase_values [OF assms(1) this assms(3) fp [unfolded nt_def]] assms(1)
  have "u ! (L - 1) = forward_subst B R ((P - 1) * L + (L - 1))"
    by simp
  moreover have "(P - 1) * L + (L - 1) = P * L - 1"
    using assms(1,2) by (cases P) simp_all
  moreover have "x_last nt = u ! (L - 1)"
    using fp unfolding nt_def by (simp add: exchange_backward)
  ultimately show ?thesis
    unfolding nt_def by simp
qed

lemma backward_coupling:
  fixes B G R :: "nat \<Rightarrow> real"
  assumes "0 < L"
    and "\<forall>k<P. \<forall>i<L. betas ! k ! i = B (k * L + i) \<and> rs ! k ! i = R (k * L + i)"
    and "\<forall>k<P. \<forall>i<L. gams ! k ! i = G (k * L + i)"
  shows "k + 2 + d = P \<Longrightarrow>
     backward_resolve k P (phi_firsts (exchange P L betas gams rs))
       (psi_firsts (exchange P L betas gams rs)) (x_last (exchange P L betas gams rs)) =
     sequential_solution B G R (P * L) ((k + 1) * L)"
proof (induction d arbitrary: k)
  case 0
  then have P: "P = Suc (Suc k)" by simp
  then have j: "Suc k < P" "Suc k = P - 1" "0 < P" by simp_all
  have "0 < P * L" using assms(1) j(3) by simp
  from sequential_solution_last [OF this, of B G R]
  have xl: "x_last (exchange P L betas gams rs) =
      sequential_solution B G R (P * L) (P * L - 1)"
    using x_last_value [OF assms(1) j(3) assms(2), of gams]
    by (simp only:)
  from rank_first_affine [OF assms(1) j(1) assms(2,3)] j(2)
  have "phi_firsts (exchange P L betas gams rs) ! Suc k +
      sequential_solution B G R (P * L) (P * L - 1) *
      psi_firsts (exchange P L betas gams rs) ! Suc k =
      sequential_solution B G R (P * L) (Suc k * L)"
    by simp
  then show ?case
    unfolding xl backward_resolve_last [of k, folded P]
    by (simp add: mult.commute)
next
  case (Suc d)
  then have j: "Suc k < P" "Suc k \<noteq> P - 1" "Suc k + 2 + d = P" "Suc (Suc k) < P"
    by simp_all
  from Suc.IH [OF j(3)] have IH: "backward_resolve (Suc k) P
       (phi_firsts (exchange P L betas gams rs))
       (psi_firsts (exchange P L betas gams rs)) (x_last (exchange P L betas gams rs)) =
     sequential_solution B G R (P * L) ((Suc k + 1) * L)" .
  from rank_first_affine [OF assms(1) j(1) assms(2,3)] j(2)
  have "phi_firsts (exchange P L betas gams rs) ! Suc k +
      sequential_solution B G R (P * L) ((Suc k + 1) * L) *
      psi_firsts (exchange P L betas gams rs) ! Suc k =
      sequential_solution B G R (P * L) (Suc k * L)"
    by simp
  then show ?case
    unfolding backward_resolve_step [OF j(4)] IH
    by (simp add: mult.commute)
qed

subsection \<open>The solver computes the sequential substitution\<close>

lemma backward_x_tilda_value:
  fixes B G R :: "nat \<Rightarrow> real"
  assumes "0 < L" "k < P"
    and "\<forall>k<P. \<forall>i<L. betas ! k ! i = B (k * L + i) \<and> rs ! k ! i = R (k * L + i)"
    and "\<forall>k<P. \<forall>i<L. gams ! k ! i = G (k * L + i)"
    and "length x = L"
    and "\<forall>i<L. u ! i = forward_subst B R (k * L + i)"
  shows "backward_x_tilda k P L (backward_anchor k P L u x)
       (phi_firsts (exchange P L betas gams rs)) (psi_firsts (exchange P L betas gams rs))
       (x_last (exchange P L betas gams rs)) =
     sequential_solution B G R (P * L) (if k = P - 1 then P * L - 1 else (k + 1) * L)"
proof (cases "k = P - 1")
  case True
  have "0 < P * L" using assms(1,2) by simp
  note last = sequential_solution_last [OF this, of B G R]
  have "k * L + (L - 1) = P * L - 1"
    using True assms(1,2) by (cases P) simp_all
  moreover have "u ! (L - 1) = forward_subst B R (k * L + (L - 1))"
    using assms(1,6) by simp
  ultimately have "u ! (L - 1) = sequential_solution B G R (P * L) (P * L - 1)"
    using last by simp
  then show ?thesis
    using True backward_x_tilda_last [OF assms(1,5), of P u] by simp
next
  case False
  with assms(2) have "k + 2 + (P - k - 2) = P" by simp
  from backward_coupling [OF assms(1,3,4) this] False show ?thesis
    by (simp add: backward_x_tilda_other)
qed

lemma solver_rank_result:
  fixes B G R :: "nat \<Rightarrow> real"
  assumes "0 < L" "k < P"
    and "\<forall>k<P. \<forall>i<L. betas ! k ! i = B (k * L + i) \<and> rs ! k ! i = R (k * L + i)"
    and "\<forall>k<P. \<forall>i<L. gams ! k ! i = G (k * L + i)"
    and "length x = L"
  shows "nonperiodic_tridiagonal_solver k P (exchange P L betas gams rs)
       (betas ! k) (gams ! k) (rs ! k) (P * L) x =
     (Done, map (\<lambda>i. sequential_solution B G R (P * L) (k * L + i)) [0..<L])"
proof -
  define nt where "nt = exchange P L betas gams rs"
  from rank_backward [OF assms(1,2,3,4)]
  obtain phi psi u phi' psi' where
    fp: "forward_phase k L (betas ! k) (rs ! k) (phi_lasts nt) (psi_lasts nt) (u_first nt) =
       (phi, psi, u)"
    and bl: "backward_local k P L u (gams ! k) (gam_firsts nt) (phi, psi) = (phi', psi')"
    and u: "\<forall>i<L. u ! i = forward_subst B R (k * L + i)"
    and aff: "\<forall>i<L. phi' ! i +
        sequential_solution B G R (P * L) (if k = P - 1 then P * L - 1 else (k + 1) * L) * psi' ! i =
        sequential_solution B G R (P * L) (k * L + i)"
    unfolding nt_def by blast
  from assms(2) have P: "0 < P" by simp
  then have dv: "(P * L) mod P = 0" "(P * L) div P = L" by simp_all
  have "nonperiodic_tridiagonal_solver k P nt (betas ! k) (gams ! k) (rs ! k) (P * L) x =
     (Done, map (\<lambda>i. phi' ! i +
         backward_x_tilda k P L (backward_anchor k P L u x)
           (phi_firsts nt) (psi_firsts nt) (x_last nt) * psi' ! i) [0..<L])"
    using solver_done [of "P * L" P x k "betas ! k" "rs ! k" nt phi psi u "gams ! k" phi' psi']
      assms(1,5) fp bl unfolding dv by simp
  also have "map (\<lambda>i. phi' ! i +
         backward_x_tilda k P L (backward_anchor k P L u x)
           (phi_firsts nt) (psi_firsts nt) (x_last nt) * psi' ! i) [0..<L] =
      map (\<lambda>i. sequential_solution B G R (P * L) (k * L + i)) [0..<L]"
    unfolding nt_def backward_x_tilda_value [OF assms(1,2,3,4,5) u]
    using aff by simp
  finally show ?thesis
    unfolding nt_def .
qed

lemma run_solver_result:
  fixes B G R :: "nat \<Rightarrow> real"
  assumes "0 < L"
    and "\<forall>k<P. \<forall>i<L. betas ! k ! i = B (k * L + i) \<and> rs ! k ! i = R (k * L + i)"
    and "\<forall>k<P. \<forall>i<L. gams ! k ! i = G (k * L + i)"
    and "\<forall>k<P. length (xs ! k) = L"
  shows "run_solver P (P * L) betas gams rs xs =
     map (\<lambda>k. (Done, map (\<lambda>i. sequential_solution B G R (P * L) (k * L + i)) [0..<L])) [0..<P]"
proof (cases "P = 0")
  case True
  then show ?thesis by (simp add: run_solver_def)
next
  case False
  then have dv: "(P * L) div P = L" by simp
  show ?thesis
    unfolding run_solver_def dv
  proof (rule map_cong [OF refl])
    fix k assume "k \<in> set [0..<P]"
    then have k: "k < P" by simp
    with assms(4) have "length (xs ! k) = L" by simp
    from solver_rank_result [OF assms(1) k assms(2,3) this]
    show "nonperiodic_tridiagonal_solver k P (exchange P L betas gams rs)
       (betas ! k) (gams ! k) (rs ! k) (P * L) (xs ! k) =
     (Done, map (\<lambda>i. sequential_solution B G R (P * L) (k * L + i)) [0..<L])" .
  qed
qed

lemma concat_rank_results:
  fixes f :: "nat \<Rightarrow> real"
  shows "concat (map snd (map (\<lambda>k. (s k, map (\<lambda>i. f (k * L + i)) [0..<L])) [0..<P])) =
         map f [0..<P * L]"
  by (rule concat_blocks [where L = L]) (simp_all del: upt_Suc)

subsection \<open>Pipeline and solver together\<close>

lemma solve_system_sequential:
  assumes "0 < N" "P dvd N" "length b0 = N" "length g0 = N" "length r = N" "length x0 = N"
  shows "solve_system P N b0 g0 r x0 =
     Some (map (\<lambda>k. (Done, map (\<lambda>i. sequential_solution beta_seq gam_seq ((!) r) N
                                     (k * (N div P) + i)) [0..<N div P])) [0..<P])"
proof -
  define L where "L = N div P"
  from assms(2) have N: "N = P * L" by (simp add: L_def)
  with assms(1) have L: "0 < L"
    by (metis mult_0_right neq0_conv)
  from pipeline_concat [OF assms(1,2,3,4)]
  obtain bg where run: "run_pipeline P N (blocks P L b0) (blocks P L g0) = Some bg"
    and len: "length bg = P"
    and vals: "\<forall>k<P. \<forall>i<L. fst (bg ! k) ! i = beta_seq (k * L + i) \<and>
                          snd (bg ! k) ! i = gam_seq (k * L + i)"
    unfolding L_def by blast
  have inp1: "\<forall>k<P. \<forall>i<L. map fst bg ! k ! i = beta_seq (k * L + i) \<and>
      blocks P L r ! k ! i = r ! (k * L + i)"
    using vals len assms(5) N by (simp add: blocks_nth_nth)
  have inp2: "\<forall>k<P. \<forall>i<L. map snd bg ! k ! i = gam_seq (k * L + i)"
    using vals len by simp
  have xs: "\<forall>k<P. length (blocks P L x0 ! k) = L"
    using assms(6) N by (simp add: blocks_nth_length)
  from run_solver_result [OF L inp1 inp2 xs] run show ?thesis
    unfolding solve_system_def Let_def L_def [symmetric] N [symmetric] by simp
qed

subsection \<open>The sequential substitution is the Thomas algorithm\<close>

lemma thomas_c_const:
  "i < n \<Longrightarrow>
   thomas_c (replicate n (1/3)) (replicate n 1) (replicate n (1/3)) i = (1/3) * beta_seq i"
  by (induction i) simp_all

lemma thomas_d_const:
  "i < n \<Longrightarrow>
   thomas_d (replicate n (1/3)) (replicate n 1) (replicate n (1/3)) r i =
     forward_subst beta_seq ((!) r) i"
  by (induction i) (simp_all add: thomas_c_const)

lemma thomas_x_const:
  "k < n \<Longrightarrow>
   thomas_x (replicate n (1/3)) (replicate n 1) (replicate n (1/3)) r n k =
     backward_subst gam_seq (forward_subst beta_seq ((!) r)) n k"
proof (induction k)
  case 0
  then show ?case by (simp add: thomas_d_const)
next
  case (Suc k)
  then have "n - 1 - Suc k + 1 = Suc (n - 1 - Suc k)" "n - 1 - Suc k < n"
    by simp_all
  with Suc show ?case
    by (simp add: thomas_d_const thomas_c_const del: replicate.simps)
qed

lemma thomas_const_sequential:
  "thomas_const (1/3) r =
     map (sequential_solution beta_seq gam_seq ((!) r) (length r)) [0..<length r]"
  unfolding thomas_const_def thomas_def length_replicate sequential_solution_def
  by (rule map_cong [OF refl]) (simp add: thomas_x_const)

lemma solve_system_thomas:
  assumes "0 < N" "P dvd N" "length b0 = N" "length g0 = N" "length r = N" "length x0 = N"
  shows "\<exists>res. solve_system P N b0 g0 r x0 = Some res \<and>
     map fst res = replicate P Done \<and> concat (map snd res) = thomas_const (1/3) r"
proof -
  define res where "res = map (\<lambda>k. (Done, map (\<lambda>i. sequential_solution beta_seq gam_seq ((!) r) N
                                     (k * (N div P) + i)) [0..<N div P])) [0..<P]"
  have run: "solve_system P N b0 g0 r x0 = Some res"
    unfolding res_def by (rule solve_system_sequential [OF assms])
  have st: "map fst res = replicate P Done"
    unfolding res_def by (simp add: map_replicate_const comp_def del: upt_Suc)
  from assms(2) have N: "P * (N div P) = N" by simp
  have "concat (map snd res) = map (sequential_solution beta_seq gam_seq ((!) r) N) [0..<P * (N div P)]"
    unfolding res_def by (rule concat_rank_results)
  then have "concat (map snd res) = thomas_const (1/3) r"
    unfolding N thomas_const_sequential assms(5) .
  with run st show ?thesis by blast
qed

subsection \<open>The Thomas algorithm solves the system\<close>

lemma beta_seq_inverse: "(1 - (1/3) * beta_seq i * (1/3)) * beta_seq (Suc i) = 1"
  using beta_seq_denominator [of i] by simp

lemma row_identity:
  fixes b b' r' U X X' T :: real
  assumes inv: "(1 - (1/3) * b * (1/3)) * b' = 1"
    and X: "X = U - (b * (1/3)) * X'"
    and X': "X' = b' * (r' - (1/3) * U - T)"
  shows "(1/3) * X + X' + T = r'"
proof -
  have "(1/3) * X + X' = (1/3) * U + (1 - (1/3) * b * (1/3)) * X'"
    unfolding X by (simp add: algebra_simps)
  also have "(1 - (1/3) * b * (1/3)) * X' =
      ((1 - (1/3) * b * (1/3)) * b') * (r' - (1/3) * U - T)"
    unfolding X' by (simp only: mult.assoc)
  also have "\<dots> = r' - (1/3) * U - T"
    unfolding inv by simp
  finally show ?thesis by simp
qed

lemma thomas_const_nth:
  "i < length r \<Longrightarrow>
   thomas_const (1/3) r ! i = sequential_solution beta_seq gam_seq ((!) r) (length r) i"
  by (simp add: thomas_const_sequential)

lemma sequential_solution_rows:
  fixes r :: arr
  defines "n \<equiv> length r"
  defines "X \<equiv> sequential_solution beta_seq gam_seq ((!) r) n"
  assumes "i < n"
  shows "(if i = 0 then 0 else (1/3) * X (i - 1)) + X i +
         (if i + 1 < n then (1/3) * X (i + 1) else 0) = r ! i"
proof -
  define U where "U = forward_subst beta_seq ((!) r)"
  define T where "T = (if i + 1 < n then (1/3) * X (i + 1) else 0)"
  have last: "X (n - 1) = U (n - 1)"
    using assms(3) unfolding X_def U_def by (intro sequential_solution_last) simp
  have step: "X j = U j - gam_seq (j + 1) * X (j + 1)" if "j + 1 < n" for j
    unfolding X_def U_def by (rule sequential_solution_step [OF that])
  show ?thesis
  proof (cases i)
    case 0
    have "X 0 + T = r ! 0"
    proof (cases "1 < n")
      case True
      with step [of 0] show ?thesis
        by (simp add: T_def 0 U_def)
    next
      case False
      with assms(3) have "n - 1 = 0" by simp
      with last False show ?thesis
        by (simp add: T_def 0 U_def)
    qed
    with 0 show ?thesis by (simp add: T_def)
  next
    case (Suc j)
    with assms(3) have j: "j + 1 < n" by simp
    have Xj: "X j = U j - (beta_seq j * (1/3)) * X (Suc j)"
      using step [OF j] by simp
    have XS: "X (Suc j) = beta_seq (Suc j) * (r ! Suc j - (1/3) * U j - T)"
    proof (cases "Suc j + 1 < n")
      case True
      with step [OF True] show ?thesis
        by (simp add: T_def Suc U_def algebra_simps)
    next
      case False
      with j have "n - 1 = Suc j" by simp
      with last False show ?thesis
        by (simp add: T_def Suc U_def)
    qed
    from row_identity [OF beta_seq_inverse Xj XS] Suc show ?thesis
      by (simp add: T_def)
  qed
qed

lemma thomas_const_solves:
  assumes "i < length r"
  shows "tridiag_row (1/3) (length r) (thomas_const (1/3) r) i = r ! i"
proof -
  have "i - 1 < length r" using assms by simp
  then have "thomas_const (1/3) r ! (i - 1) =
      sequential_solution beta_seq gam_seq ((!) r) (length r) (i - 1)"
    by (rule thomas_const_nth)
  moreover have "i + 1 < length r \<Longrightarrow> thomas_const (1/3) r ! (i + 1) =
      sequential_solution beta_seq gam_seq ((!) r) (length r) (i + 1)"
    by (rule thomas_const_nth)
  ultimately show ?thesis
    using sequential_solution_rows [OF assms] thomas_const_nth [OF assms]
    by (auto simp: tridiag_row_def split: if_splits)
qed

subsection \<open>Agreement with the Thomas algorithm\<close>

text \<open>
  C1.  For a system size \<open>N > 0\<close>, a number of ranks that divides it with a block
  size that fits the \<open>int\<close> variable \<open>local_size\<close>, and any right-hand side, the pipeline followed by the solver returns on every rank, and
  the ranks' \<open>x_local\<close> blocks, put one after the other, are the result of the
  sequential Thomas algorithm for the system with unit diagonal and off-diagonal
  weight \<open>1/3\<close>, which satisfies every row of that system; a second number of
  ranks that divides \<open>N\<close> gives the same vector.
\<close>

theorem solver_matches_thomas:
  assumes "0 < system_size" "nprocs dvd system_size" "nprocs' dvd system_size"
    and "length b0 = system_size" "length g0 = system_size"
    and "length r = system_size" "length x0 = system_size"
    and "system_size div nprocs < 2 ^ 31" "system_size div nprocs' < 2 ^ 31"
  shows "\<exists>res res'.
     solve_system nprocs system_size b0 g0 r x0 = Some res \<and>
     map fst res = replicate nprocs Done \<and>
     concat (map snd res) = thomas_const (1/3) r \<and>
     (\<forall>i<system_size. tridiag_row (1/3) system_size (concat (map snd res)) i = r ! i) \<and>
     solve_system nprocs' system_size b0 g0 r x0 = Some res' \<and>
     map fst res' = replicate nprocs' Done \<and>
     concat (map snd res') = concat (map snd res)"
proof -
  have rows: "\<forall>i<system_size. tridiag_row (1/3) system_size (thomas_const (1/3) r) i = r ! i"
    using thomas_const_solves [of _ r] assms(6) by simp
  from solve_system_thomas [OF assms(1,2,4,5,6,7)]
  obtain res where "solve_system nprocs system_size b0 g0 r x0 = Some res"
    "map fst res = replicate nprocs Done" "concat (map snd res) = thomas_const (1/3) r"
    by blast
  moreover from solve_system_thomas [OF assms(1,3,4,5,6,7)]
  obtain res' where "solve_system nprocs' system_size b0 g0 r x0 = Some res'"
    "map fst res' = replicate nprocs' Done" "concat (map snd res') = thomas_const (1/3) r"
    by blast
  ultimately show ?thesis
    using rows by simp
qed

theorem solver_matches_thomas_witness:
  "solve_system 2 4 [7, 7, 7, 7] [8, 8, 8, 8] [1, 1, 1, 1] [5, 5, 5, 5] =
     Some [(Done, [9/11, 6/11]), (Done, [6/11, 9/11])] \<and>
   solve_system 4 4 [7, 7, 7, 7] [8, 8, 8, 8] [1, 1, 1, 1] [5, 5, 5, 5] =
     Some [(Done, [9/11]), (Done, [6/11]), (Done, [6/11]), (Done, [9/11])] \<and>
   thomas_const (1/3) [1, 1, 1, 1] = [9/11, 6/11, 6/11, 9/11]"
proof -
  have h: "(0::nat) < 4" "(2::nat) dvd 4" "(4::nat) dvd 4"
    "length [7, 7, 7, 7 :: real] = 4" "length [8, 8, 8, 8 :: real] = 4"
    "length [1, 1, 1, 1 :: real] = 4" "length [5, 5, 5, 5 :: real] = 4"
    "(4::nat) div 2 < 2 ^ 31" "(4::nat) div 4 < 2 ^ 31"
    by simp_all
  have run2: "solve_system 2 4 [7, 7, 7, 7] [8, 8, 8, 8] [1, 1, 1, 1] [5, 5, 5, 5] =
     Some [(Done, [9/11, 6/11]), (Done, [6/11, 9/11])]"
    by code_simp
  have run4: "solve_system 4 4 [7, 7, 7, 7] [8, 8, 8, 8] [1, 1, 1, 1] [5, 5, 5, 5] =
     Some [(Done, [9/11]), (Done, [6/11]), (Done, [6/11]), (Done, [9/11])]"
    by code_simp
  from solver_matches_thomas [OF h] run2 run4 show ?thesis
    by simp
qed

subsection \<open>The example of the specification\<close>

lemma thomas_example: "thomas_const (1/3) [1, 1, 1, 1] = [9/11, 6/11, 6/11, 9/11]"
  by code_simp

lemma example_solution:
  "mat_vec example_matrix [9/11, 6/11, 6/11, 9/11] = [1, 1, 1, 1]"
  by (simp add: mat_vec_def example_matrix_def)

lemma example_unique:
  assumes "length y = 4" "mat_vec example_matrix y = [1, 1, 1, 1]"
  shows "y = [9/11, 6/11, 6/11, 9/11]"
proof -
  from assms(1) obtain a b c d where y: "y = [a, b, c, d]"
    by (auto simp: length_Suc_conv eval_nat_numeral)
  from assms(2) have "a + b / 3 = 1" "a / 3 + b + c / 3 = 1" "b / 3 + c + d / 3 = 1"
    "c / 3 + d = 1"
    unfolding y by (simp_all add: mat_vec_def example_matrix_def)
  then have "a = 9/11" "b = 6/11" "c = 6/11" "d = 9/11"
    by linarith+
  with y show ?thesis by simp
qed

text \<open>
  C9.  For \<open>N = 4\<close> and \<open>r = [1, 1, 1, 1]\<close> the pipeline followed by the solver
  returns \<open>[9/11, 6/11, 6/11, 9/11]\<close> with 1, 2 and 4 ranks; that vector solves
  the system with the rows \<open>[1, w, 0, 0]\<close>, \<open>[w, 1, w, 0]\<close>, \<open>[0, w, 1, w]\<close>,
  \<open>[0, 0, w, 1]\<close>, \<open>w = 1/3\<close>, and no other vector does.
\<close>

theorem example_system:
  assumes "P = 1 \<or> P = 2 \<or> P = 4"
    and "length b0 = 4" "length g0 = 4" "length x0 = 4"
  shows "\<exists>res. solve_system P 4 b0 g0 [1, 1, 1, 1] x0 = Some res \<and>
     map fst res = replicate P Done \<and>
     concat (map snd res) = [9/11, 6/11, 6/11, 9/11] \<and>
     mat_vec example_matrix (concat (map snd res)) = [1, 1, 1, 1] \<and>
     (\<forall>y. length y = 4 \<and> mat_vec example_matrix y = [1, 1, 1, 1] \<longrightarrow>
          y = concat (map snd res))"
proof -
  from assms(1) have dv: "P dvd 4" by auto
  have h: "(0::nat) < 4" "length [1, 1, 1, 1 :: real] = 4" by simp_all
  from solve_system_thomas [OF h(1) dv assms(2,3) h(2) assms(4)]
  obtain res where "solve_system P 4 b0 g0 [1, 1, 1, 1] x0 = Some res"
    "map fst res = replicate P Done"
    "concat (map snd res) = [9/11, 6/11, 6/11, 9/11]"
    unfolding thomas_example by blast
  then show ?thesis
    using example_solution example_unique by auto
qed

theorem example_system_witness:
  "solve_system 2 4 [7, 7, 7, 7] [8, 8, 8, 8] [1, 1, 1, 1] [5, 5, 5, 5] =
     Some [(Done, [9/11, 6/11]), (Done, [6/11, 9/11])] \<and>
   mat_vec example_matrix (concat (map snd [(Done, [9/11, 6/11]), (Done, [6/11, 9/11])])) =
     [1, 1, 1, 1]"
proof -
  have h: "(2::nat) = 1 \<or> (2::nat) = 2 \<or> (2::nat) = 4"
    "length [7, 7, 7, 7 :: real] = 4" "length [8, 8, 8, 8 :: real] = 4"
    "length [5, 5, 5, 5 :: real] = 4"
    by simp_all
  have run: "solve_system 2 4 [7, 7, 7, 7] [8, 8, 8, 8] [1, 1, 1, 1] [5, 5, 5, 5] =
     Some [(Done, [9/11, 6/11]), (Done, [6/11, 9/11])]"
    by code_simp
  from example_system [OF h] run show ?thesis
    by auto
qed

end
